theory Spec2Isabelle
  imports Main "HOL-Library.Sublist"
begin

section \<open>Data model of the upload queue (types/index.ts, FileUploader)\<close>

text \<open>
  A browser \<open>File\<close> is seen by the component through its name and its size in bytes only.
  Names are strings of code units; \<open>size\<close> is a non-negative integer.
\<close>

record File =
  name :: string
  size_bytes :: nat

datatype status = Pending | Uploading | Processing | Completed | Error

text \<open>\<open>UploadProgress\<close>: one entry of the queue. \<open>error\<close> is \<open>string | null\<close>.\<close>

record UploadProgress =
  item_file :: File
  progress :: nat
  status :: status
  error :: "string option"

record FileUploadResponse =
  fileId :: string
  storageUrl :: string
  status_text :: string
  message :: string

text \<open>
  What the awaited \<open>uploadFile\<close> call can do: resolve with a response, or reject with a
  thrown value, which is an \<open>Error\<close> instance carrying a message or any other value.
\<close>

datatype thrown = ErrorInstance string | OtherValue

datatype outcome = Resolved FileUploadResponse | Rejected thrown

section \<open>String and array primitives used by the component\<close>

text \<open>
  \<open>toLowerCase\<close> on the letters \<open>A\<close> to \<open>Z\<close>; every other code unit is kept. No code
  unit outside \<open>A\<close> to \<open>Z\<close> is lower-cased by JavaScript to a letter occurring in an
  allowed extension, so membership in the allow-list is decided as in the source.
\<close>

definition toLowerCase_char :: "char \<Rightarrow> char" where
  "toLowerCase_char c =
     (case map_of (zip ''ABCDEFGHIJKLMNOPQRSTUVWXYZ'' ''abcdefghijklmnopqrstuvwxyz'') c of
        None \<Rightarrow> c
      | Some l \<Rightarrow> l)"

definition toLowerCase :: "string \<Rightarrow> string" where
  "toLowerCase s = map toLowerCase_char s"

text \<open>\<open>s.split(sep)\<close> for a one-character separator: never the empty array.\<close>

fun split_on :: "char \<Rightarrow> string \<Rightarrow> string list" where
  "split_on sep [] = [[]]"
| "split_on sep (c # cs) =
     (if c = sep then [] # split_on sep cs
      else (case split_on sep cs of [] \<Rightarrow> [[c]] | s # ss \<Rightarrow> (c # s) # ss))"

text \<open>\<open>xs.pop()\<close>: the last element, \<open>undefined\<close> on the empty array.\<close>

definition pop :: "'a list \<Rightarrow> 'a option" where
  "pop xs = (case rev xs of [] \<Rightarrow> None | x # _ \<Rightarrow> Some x)"

fun join :: "string \<Rightarrow> string list \<Rightarrow> string" where
  "join sep [] = []"
| "join sep [x] = x"
| "join sep (x # y # ys) = x @ sep @ join sep (y # ys)"

definition push :: "'a list \<Rightarrow> 'a \<Rightarrow> 'a list" where
  "push xs x = xs @ [x]"

text \<open>\<open>xs.map((item, idx) => ...)\<close> and \<open>xs.filter((item, idx) => ...)\<close>.\<close>

fun map_from :: "nat \<Rightarrow> ('a \<Rightarrow> nat \<Rightarrow> 'b) \<Rightarrow> 'a list \<Rightarrow> 'b list" where
  "map_from n f [] = []"
| "map_from n f (x # xs) = f x n # map_from (Suc n) f xs"

definition map_with_index :: "('a \<Rightarrow> nat \<Rightarrow> 'b) \<Rightarrow> 'a list \<Rightarrow> 'b list" where
  "map_with_index f xs = map_from 0 f xs"

fun filter_from :: "nat \<Rightarrow> ('a \<Rightarrow> nat \<Rightarrow> bool) \<Rightarrow> 'a list \<Rightarrow> 'a list" where
  "filter_from n p [] = []"
| "filter_from n p (x # xs) =
     (if p x n then x # filter_from (Suc n) p xs else filter_from (Suc n) p xs)"

definition filter_with_index :: "('a \<Rightarrow> nat \<Rightarrow> bool) \<Rightarrow> 'a list \<Rightarrow> 'a list" where
  "filter_with_index p xs = filter_from 0 p xs"

text \<open>Truthiness of a \<open>string | null\<close> value, as tested by \<open>if (error)\<close>.\<close>

definition truthy :: "string option \<Rightarrow> bool" where
  "truthy v = (case v of None \<Rightarrow> False | Some s \<Rightarrow> s \<noteq> [])"

section \<open>Validation\<close>

definition ALLOWED_EXTENSIONS :: "string list" where
  "ALLOWED_EXTENSIONS = [''.csv'', ''.xlsx'', ''.xls'', ''.pdf'', ''.png'', ''.jpg'', ''.jpeg'']"

definition MAX_FILE_SIZE :: nat where
  "MAX_FILE_SIZE = 50 * 1024 * 1024"

definition fileExt :: "File \<Rightarrow> string" where
  "fileExt f =
     ''.'' @ (case pop (split_on CHR ''.'' (name f)) of
                None \<Rightarrow> ''undefined''
              | Some s \<Rightarrow> toLowerCase s)"

text \<open>
  \<open>validateFile\<close>. The helper \<open>formatFileSize\<close> lives in \<open>lib/utils\<close>, outside the sources
  at hand, and is taken as a parameter.
\<close>

definition validateFile :: "(nat \<Rightarrow> string) \<Rightarrow> File \<Rightarrow> string option" where
  "validateFile formatFileSize f =
     (if fileExt f \<notin> set ALLOWED_EXTENSIONS then
        Some (''File type not supported. Allowed: '' @ join '', '' ALLOWED_EXTENSIONS)
      else if size_bytes f > MAX_FILE_SIZE then
        Some (''File too large. Maximum size: '' @ formatFileSize MAX_FILE_SIZE)
      else None)"

section \<open>handleFiles: building the new queue entries\<close>

text \<open>The \<open>forEach\<close> of \<open>handleFiles\<close>, threading \<open>validFiles\<close> and \<open>newQueue\<close>.\<close>

fun forEach_file ::
  "(nat \<Rightarrow> string) \<Rightarrow> File list \<Rightarrow> File list \<times> UploadProgress list
     \<Rightarrow> File list \<times> UploadProgress list" where
  "forEach_file fmt [] acc = acc"
| "forEach_file fmt (f # fs) (validFiles, newQueue) =
     (let err = validateFile fmt f in
      if truthy err then
        forEach_file fmt fs
          (validFiles,
           push newQueue \<lparr>item_file = f, progress = 0, status = Error, error = err\<rparr>)
      else
        forEach_file fmt fs
          (push validFiles f,
           push newQueue \<lparr>item_file = f, progress = 0, status = Pending, error = None\<rparr>))"

section \<open>Item updates of the lifecycle (the object spreads)\<close>

definition to_uploading :: "UploadProgress \<Rightarrow> UploadProgress" where
  "to_uploading item = item\<lparr>status := Uploading, progress := 50\<rparr>"

definition to_processing :: "UploadProgress \<Rightarrow> UploadProgress" where
  "to_processing item = item\<lparr>status := Processing, progress := 75\<rparr>"

definition to_completed :: "UploadProgress \<Rightarrow> UploadProgress" where
  "to_completed item = item\<lparr>status := Completed, progress := 100\<rparr>"

text \<open>\<open>error instanceof Error ? error.message : "Upload failed"\<close>\<close>

fun failure_message :: "thrown \<Rightarrow> string" where
  "failure_message (ErrorInstance m) = m"
| "failure_message OtherValue = ''Upload failed''"

definition to_error :: "thrown \<Rightarrow> UploadProgress \<Rightarrow> UploadProgress" where
  "to_error err item =
     item\<lparr>status := Error, progress := 0, error := Some (failure_message err)\<rparr>"

text \<open>\<open>prev.map((item, idx) => idx === queueIndex ? upd(item) : item)\<close>\<close>

definition patch_at ::
  "nat \<Rightarrow> (UploadProgress \<Rightarrow> UploadProgress) \<Rightarrow> UploadProgress list \<Rightarrow> UploadProgress list" where
  "patch_at queueIndex upd prev =
     map_with_index (\<lambda>item idx. if idx = queueIndex then upd item else item) prev"

text \<open>\<open>removeFromQueue\<close>: \<open>prev.filter((_, idx) => idx !== index)\<close>, for any integer index.\<close>

definition removeFromQueue :: "int \<Rightarrow> 'a list \<Rightarrow> 'a list" where
  "removeFromQueue index prev = filter_with_index (\<lambda>_ idx. int idx \<noteq> index) prev"

section \<open>The component as a transition system\<close>

text \<open>
  The props of the component and the imported formatter. The completion callback is
  optional; the model records whether it was supplied and logs its invocations.
\<close>

record env =
  formatFileSize :: "nat \<Rightarrow> string"
  projectId :: "string option"
  has_onUploadComplete :: bool

text \<open>
  One invocation of \<open>handleFiles\<close> suspended at \<open>await uploadFile(...)\<close> in iteration
  \<open>loop_i\<close> of its \<open>for\<close> loop. \<open>captured_length\<close> is \<open>uploadQueue.length\<close> as the closure
  sees it. The invocation has left the loop when \<open>loop_i = length validFiles\<close>.
\<close>

record task =
  validFiles :: "File list"
  captured_length :: nat
  loop_i :: nat

text \<open>
  The state: the React state \<open>uploadQueue\<close>, the suspended invocations, the pending
  timers (slot and response captured by the timer's closure), and two logs: the calls of
  \<open>uploadFile\<close> and the calls of \<open>onUploadComplete\<close>, oldest first.
\<close>

record state =
  uploadQueue :: "UploadProgress list"
  tasks :: "task list"
  timers :: "(nat \<times> FileUploadResponse) list"
  uploadFile_calls :: "(File \<times> string option) list"
  onUploadComplete_calls :: "string list"

definition initial_state :: state where
  "initial_state =
     \<lparr>uploadQueue = [], tasks = [], timers = [], uploadFile_calls = [],
      onUploadComplete_calls = []\<rparr>"

definition setUploadQueue ::
  "(UploadProgress list \<Rightarrow> UploadProgress list) \<Rightarrow> state \<Rightarrow> state" where
  "setUploadQueue updater s = s\<lparr>uploadQueue := updater (uploadQueue s)\<rparr>"

definition queueIndex :: "task \<Rightarrow> nat" where
  "queueIndex t = captured_length t + loop_i t"

text \<open>
  The head of a loop iteration up to its \<open>await\<close>: when the loop condition holds, mark the
  slot as uploading and call \<open>uploadFile(file, projectId)\<close>; otherwise the loop is over.
\<close>

definition begin_iteration :: "env \<Rightarrow> task \<Rightarrow> state \<Rightarrow> state" where
  "begin_iteration e t s =
     (if loop_i t < length (validFiles t) then
        (let s1 = setUploadQueue (patch_at (queueIndex t) to_uploading) s
         in s1\<lparr>uploadFile_calls :=
                 uploadFile_calls s1 @ [(validFiles t ! loop_i t, projectId e)]\<rparr>)
      else s)"

text \<open>
  The rest of the iteration once the awaited call has settled: on success mark the slot
  as processing and arm the one-second timer; on a throw run the \<open>catch\<close> block.
\<close>

definition after_await :: "task \<Rightarrow> outcome \<Rightarrow> state \<Rightarrow> state" where
  "after_await t out s =
     (case out of
        Resolved response \<Rightarrow>
          (setUploadQueue (patch_at (queueIndex t) to_processing) s)
            \<lparr>timers := timers s @ [(queueIndex t, response)]\<rparr>
      | Rejected err \<Rightarrow>
          setUploadQueue (patch_at (queueIndex t) (to_error err)) s)"

text \<open>The body of the \<open>setTimeout\<close> callback.\<close>

definition timeout_callback :: "env \<Rightarrow> nat \<times> FileUploadResponse \<Rightarrow> state \<Rightarrow> state" where
  "timeout_callback e tm s =
     (let s1 = setUploadQueue (patch_at (fst tm) to_completed) s
      in if has_onUploadComplete e then
           s1\<lparr>onUploadComplete_calls := onUploadComplete_calls s1 @ [fileId (snd tm)]\<rparr>
         else s1)"

text \<open>
  \<open>handleFiles\<close> up to and including \<open>setUploadQueue((prev) => [...prev, ...newQueue])\<close>,
  and then the whole synchronous part, which runs on into the first iteration of the loop.
  The closure's \<open>uploadQueue\<close> is the state the component was last rendered with, which
  is the current state when a user event is dispatched.
\<close>

definition enqueue :: "env \<Rightarrow> File list \<Rightarrow> state \<Rightarrow> state" where
  "enqueue e files s =
     setUploadQueue (\<lambda>prev. prev @ snd (forEach_file (formatFileSize e) files ([], []))) s"

definition new_task :: "env \<Rightarrow> File list \<Rightarrow> state \<Rightarrow> task" where
  "new_task e files s =
     \<lparr>validFiles = fst (forEach_file (formatFileSize e) files ([], [])),
      captured_length = length (uploadQueue s),
      loop_i = 0\<rparr>"

definition handleFiles :: "env \<Rightarrow> File list option \<Rightarrow> state \<Rightarrow> state" where
  "handleFiles e files s =
     (case files of
        None \<Rightarrow> s
      | Some fs \<Rightarrow>
          (let t = new_task e fs s;
               s2 = begin_iteration e t (enqueue e fs s)
           in s2\<lparr>tasks := tasks s2 @ [t]\<rparr>))"

text \<open>
  Resuming invocation \<open>j\<close> with the outcome of its awaited call: finish the iteration,
  increment \<open>i\<close>, and run the head of the next iteration.
\<close>

definition resume :: "env \<Rightarrow> nat \<Rightarrow> outcome \<Rightarrow> state \<Rightarrow> state" where
  "resume e j out s =
     (let t = tasks s ! j;
          t' = t\<lparr>loop_i := Suc (loop_i t)\<rparr>;
          s1 = after_await t out s
      in begin_iteration e t' (s1\<lparr>tasks := (tasks s1)[j := t']\<rparr>))"

definition awaiting :: "state \<Rightarrow> nat \<Rightarrow> bool" where
  "awaiting s j = (j < length (tasks s) \<and> loop_i (tasks s ! j) < length (validFiles (tasks s ! j)))"

text \<open>
  The events the component reacts to: the user drops or picks files, an outstanding
  \<open>uploadFile\<close> call settles, a timer fires, the user dismisses an entry.
\<close>

datatype event =
    HandleFiles "File list option"
  | UploadSettles nat outcome
  | TimerFires nat
  | RemoveFromQueue int

fun step :: "env \<Rightarrow> state \<Rightarrow> event \<Rightarrow> state option" where
  "step e s (HandleFiles files) = Some (handleFiles e files s)"
| "step e s (UploadSettles j out) =
     (if awaiting s j then Some (resume e j out s) else None)"
| "step e s (TimerFires n) =
     (if n < length (timers s) then
        Some (timeout_callback e (timers s ! n)
                (s\<lparr>timers := take n (timers s) @ drop (Suc n) (timers s)\<rparr>))
      else None)"
| "step e s (RemoveFromQueue index) = Some (setUploadQueue (removeFromQueue index) s)"

fun run :: "env \<Rightarrow> state \<Rightarrow> event list \<Rightarrow> state option" where
  "run e s [] = Some s"
| "run e s (ev # evs) = (case step e s ev of None \<Rightarrow> None | Some s' \<Rightarrow> run e s' evs)"

section \<open>Notions used to state the properties\<close>


text \<open>The files handed to \<open>handleFiles\<close> along a sequence of events, in order.\<close>

definition submitted_files :: "event list \<Rightarrow> File list" where
  "submitted_files evs =
     concat (map (\<lambda>ev. case ev of HandleFiles (Some fs) \<Rightarrow> fs | _ \<Rightarrow> []) evs)"

definition is_dismissal :: "event \<Rightarrow> bool" where
  "is_dismissal ev = (case ev of RemoveFromQueue index \<Rightarrow> True | _ \<Rightarrow> False)"

text \<open>
  Events without dismissals in whose batches no rejected file comes before an accepted
  one, and the property that the slots a suspended invocation addresses hold the entries
  of its own files.
\<close>

definition rejected_last :: "env \<Rightarrow> event \<Rightarrow> bool" where
  "rejected_last e ev =
     (case ev of
        HandleFiles files \<Rightarrow>
          (case files of
             None \<Rightarrow> True
           | Some fs \<Rightarrow>
               take (length (fst (forEach_file (formatFileSize e) fs ([], [])))) fs
                 = fst (forEach_file (formatFileSize e) fs ([], [])))
      | UploadSettles j out \<Rightarrow> True
      | TimerFires n \<Rightarrow> True
      | RemoveFromQueue index \<Rightarrow> False)"

definition own_entries :: "File list \<Rightarrow> nat \<times> File list \<Rightarrow> bool" where
  "own_entries files_of_queue shape =
     (drop (fst shape) (take (fst shape + length (snd shape)) files_of_queue) = snd shape)"

definition addresses_own_entries :: "state \<Rightarrow> bool" where
  "addresses_own_entries s =
     list_all (\<lambda>t. own_entries (map item_file (uploadQueue s)) (captured_length t, validFiles t))
       (tasks s)"

text \<open>
  An entry carries an error message exactly when it is in the error state. The remaining
  notions say that the lifecycles keep apart: the slots of the suspended invocations lie
  inside the queue, one invocation after the other; no slot still to be addressed and no
  slot a timer is armed for is in the error state; and each timer is armed for a slot its
  invocation has already passed.
\<close>

definition error_iff_state :: "UploadProgress \<Rightarrow> bool" where
  "error_iff_state item = ((error item \<noteq> None) = (status item = Error))"

definition slot :: "task \<Rightarrow> nat \<Rightarrow> nat" where
  "slot t i = captured_length t + i"

definition tasks_tile :: "state \<Rightarrow> bool" where
  "tasks_tile s =
     ((\<forall>a < length (tasks s).
         loop_i (tasks s ! a) \<le> length (validFiles (tasks s ! a))
         \<and> slot (tasks s ! a) (length (validFiles (tasks s ! a))) \<le> length (uploadQueue s))
      \<and> (\<forall>a b. a < b \<and> b < length (tasks s) \<longrightarrow>
            slot (tasks s ! a) (length (validFiles (tasks s ! a))) \<le> captured_length (tasks s ! b)))"

definition todo_not_failed :: "state \<Rightarrow> bool" where
  "todo_not_failed s =
     (\<forall>a < length (tasks s). \<forall>i.
        loop_i (tasks s ! a) \<le> i \<and> i < length (validFiles (tasks s ! a)) \<longrightarrow>
          status (uploadQueue s ! slot (tasks s ! a) i) \<noteq> Error)"

definition timers_armed :: "state \<Rightarrow> bool" where
  "timers_armed s =
     (\<forall>tm \<in> set (timers s).
        status (uploadQueue s ! fst tm) \<noteq> Error
        \<and> (\<exists>a < length (tasks s). \<exists>i < loop_i (tasks s ! a). fst tm = slot (tasks s ! a) i))"

definition lifecycles_apart :: "state \<Rightarrow> bool" where
  "lifecycles_apart s =
     (list_all error_iff_state (uploadQueue s) \<and> tasks_tile s \<and> todo_not_failed s
      \<and> timers_armed s)"


text \<open>The queue the interface shows after a sequence of events on a fresh component.\<close>

definition queue_after :: "env \<Rightarrow> event list \<Rightarrow> UploadProgress list option" where
  "queue_after e evs = map_option uploadQueue (run e initial_state evs)"

text \<open>The progress value each lifecycle update writes together with a state.\<close>

definition stage_progress :: "status \<Rightarrow> nat" where
  "stage_progress st =
     (case st of Pending \<Rightarrow> 0 | Uploading \<Rightarrow> 50 | Processing \<Rightarrow> 75 | Completed \<Rightarrow> 100
      | Error \<Rightarrow> 0)"

definition progress_matches_status :: "UploadProgress \<Rightarrow> bool" where
  "progress_matches_status item = (progress item = stage_progress (status item))"


section \<open>Files and props of the worked scenarios\<close>

text \<open>
  Concrete inputs for the scenarios below. The formatter of the example props renders the
  ceiling as a fixed text; every general statement holds for any formatter.
\<close>

definition example_env :: env where
  "example_env =
     \<lparr>formatFileSize = (\<lambda>bytes. ''50 MB''), projectId = None, has_onUploadComplete = True\<rparr>"

definition report_csv :: File where
  "report_csv = \<lparr>name = ''report.csv'', size_bytes = 10240\<rparr>"

definition malware_exe :: File where
  "malware_exe = \<lparr>name = ''malware.exe'', size_bytes = 10240\<rparr>"

definition bigdata_xlsx :: File where
  "bigdata_xlsx = \<lparr>name = ''bigdata.xlsx'', size_bytes = 62914560\<rparr>"

definition limit_xlsx :: File where
  "limit_xlsx = \<lparr>name = ''limit.XLSX'', size_bytes = 52428800\<rparr>"

definition a_csv :: File where
  "a_csv = \<lparr>name = ''a.csv'', size_bytes = 2048\<rparr>"

definition b_pdf :: File where
  "b_pdf = \<lparr>name = ''b.pdf'', size_bytes = 4096\<rparr>"

definition type_message :: string where
  "type_message =
     ''File type not supported. Allowed: .csv, .xlsx, .xls, .pdf, .png, .jpg, .jpeg''"

definition three_item_queue :: "UploadProgress list" where
  "three_item_queue =
     [\<lparr>item_file = a_csv, progress = 100, status = Completed, error = None\<rparr>,
      \<lparr>item_file = b_pdf, progress = 50, status = Uploading, error = None\<rparr>,
      \<lparr>item_file = malware_exe, progress = 0, status = Error, error = Some type_message\<rparr>]"

definition response_1 :: FileUploadResponse where
  "response_1 =
     \<lparr>fileId = ''file-1'', storageUrl = ''uploads/file-1'', status_text = ''uploading'',
      message = ''File uploaded successfully''\<rparr>"

text \<open>
  States of three scenarios on a fresh component: a batch of \<open>malware.exe\<close> followed by
  \<open>report.csv\<close>; a batch of \<open>a.csv\<close> and \<open>b.pdf\<close>; and \<open>report.csv\<close> alone.
\<close>

definition mixed_1 :: state where
  "mixed_1 =
     \<lparr>uploadQueue =
        [\<lparr>item_file = malware_exe, progress = 50, status = Uploading, error = Some type_message\<rparr>,
         \<lparr>item_file = report_csv, progress = 0, status = Pending, error = None\<rparr>],
      tasks = [\<lparr>validFiles = [report_csv], captured_length = 0, loop_i = 0\<rparr>],
      timers = [], uploadFile_calls = [(report_csv, None)], onUploadComplete_calls = []\<rparr>"

definition mixed_2_rejected :: state where
  "mixed_2_rejected =
     \<lparr>uploadQueue =
        [\<lparr>item_file = malware_exe, progress = 0, status = Error, error = Some ''Network Error''\<rparr>,
         \<lparr>item_file = report_csv, progress = 0, status = Pending, error = None\<rparr>],
      tasks = [\<lparr>validFiles = [report_csv], captured_length = 0, loop_i = 1\<rparr>],
      timers = [], uploadFile_calls = [(report_csv, None)], onUploadComplete_calls = []\<rparr>"

definition mixed_2 :: state where
  "mixed_2 =
     \<lparr>uploadQueue =
        [\<lparr>item_file = malware_exe, progress = 75, status = Processing, error = Some type_message\<rparr>,
         \<lparr>item_file = report_csv, progress = 0, status = Pending, error = None\<rparr>],
      tasks = [\<lparr>validFiles = [report_csv], captured_length = 0, loop_i = 1\<rparr>],
      timers = [(0, response_1)], uploadFile_calls = [(report_csv, None)],
      onUploadComplete_calls = []\<rparr>"

definition mixed_3 :: state where
  "mixed_3 =
     \<lparr>uploadQueue =
        [\<lparr>item_file = malware_exe, progress = 100, status = Completed, error = Some type_message\<rparr>,
         \<lparr>item_file = report_csv, progress = 0, status = Pending, error = None\<rparr>],
      tasks = [\<lparr>validFiles = [report_csv], captured_length = 0, loop_i = 1\<rparr>],
      timers = [], uploadFile_calls = [(report_csv, None)],
      onUploadComplete_calls = [''file-1'']\<rparr>"

definition two_1 :: state where
  "two_1 =
     \<lparr>uploadQueue =
        [\<lparr>item_file = a_csv, progress = 50, status = Uploading, error = None\<rparr>,
         \<lparr>item_file = b_pdf, progress = 0, status = Pending, error = None\<rparr>],
      tasks = [\<lparr>validFiles = [a_csv, b_pdf], captured_length = 0, loop_i = 0\<rparr>],
      timers = [], uploadFile_calls = [(a_csv, None)], onUploadComplete_calls = []\<rparr>"

definition two_2 :: state where
  "two_2 =
     \<lparr>uploadQueue =
        [\<lparr>item_file = a_csv, progress = 0, status = Error, error = Some ''Upload failed''\<rparr>,
         \<lparr>item_file = b_pdf, progress = 50, status = Uploading, error = None\<rparr>],
      tasks = [\<lparr>validFiles = [a_csv, b_pdf], captured_length = 0, loop_i = 1\<rparr>],
      timers = [], uploadFile_calls = [(a_csv, None), (b_pdf, None)],
      onUploadComplete_calls = []\<rparr>"

definition two_3 :: state where
  "two_3 =
     \<lparr>uploadQueue =
        [\<lparr>item_file = a_csv, progress = 0, status = Error, error = Some ''Upload failed''\<rparr>,
         \<lparr>item_file = b_pdf, progress = 75, status = Processing, error = None\<rparr>],
      tasks = [\<lparr>validFiles = [a_csv, b_pdf], captured_length = 0, loop_i = 2\<rparr>],
      timers = [(1, response_1)], uploadFile_calls = [(a_csv, None), (b_pdf, None)],
      onUploadComplete_calls = []\<rparr>"

definition two_4 :: state where
  "two_4 =
     \<lparr>uploadQueue =
        [\<lparr>item_file = a_csv, progress = 0, status = Error, error = Some ''Upload failed''\<rparr>,
         \<lparr>item_file = b_pdf, progress = 100, status = Completed, error = None\<rparr>],
      tasks = [\<lparr>validFiles = [a_csv, b_pdf], captured_length = 0, loop_i = 2\<rparr>],
      timers = [], uploadFile_calls = [(a_csv, None), (b_pdf, None)],
      onUploadComplete_calls = [''file-1'']\<rparr>"



section \<open>Basic facts about the primitives\<close>

lemma split_on_not_Nil: "split_on sep s \<noteq> []"
  by (induction s) (auto split: list.splits)

lemma pop_split_on: "pop (split_on sep s) = Some (last (split_on sep s))"
  using split_on_not_Nil [of sep s]
  by (cases "split_on sep s" rule: rev_cases) (simp_all add: pop_def)

lemma map_from_eq: "map_from n f xs = map (\<lambda>(x, idx). f x idx) (zip xs [n..<n + length xs])"
proof (induction xs arbitrary: n)
  case Nil
  then show ?case by simp
next
  case (Cons x xs)
  have "[n..<n + length (x # xs)] = n # [Suc n..<Suc n + length xs]"
    by (simp add: upt_rec)
  with Cons show ?case by simp
qed

lemma length_map_from: "length (map_from n f xs) = length xs"
  by (induction xs arbitrary: n) simp_all

lemma nth_map_from: "k < length xs \<Longrightarrow> map_from n f xs ! k = f (xs ! k) (n + k)"
proof (induction xs arbitrary: n k)
  case Nil
  then show ?case by simp
next
  case (Cons x xs)
  then show ?case by (cases k) simp_all
qed

lemma length_patch_at: "length (patch_at k upd q) = length q"
  by (simp add: patch_at_def map_with_index_def length_map_from)

lemma nth_patch_at:
  "n < length q \<Longrightarrow> patch_at k upd q ! n = (if n = k then upd (q ! n) else q ! n)"
  by (simp add: patch_at_def map_with_index_def nth_map_from)

lemma patch_at_list_update:
  "patch_at k upd q = (if k < length q then q[k := upd (q ! k)] else q)"
  by (rule nth_equalityI) (auto simp: length_patch_at nth_patch_at nth_list_update)

lemma MAX_FILE_SIZE_value: "MAX_FILE_SIZE = 52428800"
  by (simp add: MAX_FILE_SIZE_def)

lemma fileExt_examples:
  "fileExt report_csv = ''.csv''" "fileExt malware_exe = ''.exe''"
  "fileExt bigdata_xlsx = ''.xlsx''" "fileExt limit_xlsx = ''.xlsx''"
  by (simp_all add: fileExt_def pop_def toLowerCase_def toLowerCase_char_def
      report_csv_def malware_exe_def bigdata_xlsx_def limit_xlsx_def)

lemma filter_from_remove:
  "filter_from n (\<lambda>_ idx. int idx \<noteq> index) xs =
     (if int n \<le> index \<and> index < int n + int (length xs)
      then take (nat index - n) xs @ drop (Suc (nat index - n)) xs else xs)"
proof (induction xs arbitrary: n)
  case Nil
  then show ?case by simp
next
  case (Cons x xs)
  note IH = Cons [of "Suc n"]
  show ?case
  proof (cases "int n = index")
    case True
    then show ?thesis using IH by auto
  next
    case False
    show ?thesis
    proof (cases "int n < index \<and> index < int n + int (length (x # xs))")
      case True
      then have "nat index - n = Suc (nat index - Suc n)" by linarith
      with True False IH show ?thesis by auto
    next
      case out: False
      with False IH show ?thesis by auto
    qed
  qed
qed

lemma removeFromQueue_eq:
  "removeFromQueue index q =
     (if 0 \<le> index \<and> index < int (length q)
      then take (nat index) q @ drop (Suc (nat index)) q else q)"
  using filter_from_remove [of 0 index q]
  by (simp add: removeFromQueue_def filter_with_index_def)


section \<open>Validation and the new queue entries\<close>

lemma join_allowed: "join '', '' ALLOWED_EXTENSIONS = ''.csv, .xlsx, .xls, .pdf, .png, .jpg, .jpeg''"
  by (simp add: ALLOWED_EXTENSIONS_def)

lemma validateFile_cases:
  "validateFile fmt f =
     (if fileExt f \<notin> set ALLOWED_EXTENSIONS then Some type_message
      else if 52428800 < size_bytes f then Some (''File too large. Maximum size: '' @ fmt 52428800)
      else None)"
  by (simp add: validateFile_def join_allowed type_message_def MAX_FILE_SIZE_value)

lemma truthy_validateFile: "truthy (validateFile fmt f) \<longleftrightarrow> validateFile fmt f \<noteq> None"
  by (simp add: validateFile_cases truthy_def type_message_def)

lemma forEach_file_acc:
  "forEach_file fmt fs (v, q) =
     (v @ filter (\<lambda>f. validateFile fmt f = None) fs,
      q @ map (\<lambda>f. case validateFile fmt f of
                      None \<Rightarrow> \<lparr>item_file = f, progress = 0, status = Pending, error = None\<rparr>
                    | Some m \<Rightarrow> \<lparr>item_file = f, progress = 0, status = Error, error = Some m\<rparr>) fs)"
proof (induction fs arbitrary: v q)
  case Nil
  then show ?case by simp
next
  case (Cons f fs)
  show ?case
  proof (cases "validateFile fmt f")
    case None
    have "\<not> truthy (validateFile fmt f)" unfolding truthy_validateFile using None by simp
    with None show ?thesis by (simp add: Cons push_def)
  next
    case (Some m)
    have "truthy (validateFile fmt f)" unfolding truthy_validateFile using Some by simp
    with Some show ?thesis by (simp add: Cons push_def)
  qed
qed

lemma validFiles_eq:
  "fst (forEach_file fmt fs ([], [])) = filter (\<lambda>f. validateFile fmt f = None) fs"
  by (simp add: forEach_file_acc)


section \<open>Effect of each operation on the fields of the state\<close>

lemma setUploadQueue_fields [simp]:
  "uploadQueue (setUploadQueue u s) = u (uploadQueue s)"
  "tasks (setUploadQueue u s) = tasks s"
  "timers (setUploadQueue u s) = timers s"
  "uploadFile_calls (setUploadQueue u s) = uploadFile_calls s"
  "onUploadComplete_calls (setUploadQueue u s) = onUploadComplete_calls s"
  by (simp_all add: setUploadQueue_def)

lemma begin_iteration_fields:
  "uploadQueue (begin_iteration e t s) =
     (if loop_i t < length (validFiles t)
      then patch_at (queueIndex t) to_uploading (uploadQueue s) else uploadQueue s)"
  "uploadFile_calls (begin_iteration e t s) =
     uploadFile_calls s @
       (if loop_i t < length (validFiles t) then [(validFiles t ! loop_i t, projectId e)] else [])"
  "tasks (begin_iteration e t s) = tasks s"
  "timers (begin_iteration e t s) = timers s"
  "onUploadComplete_calls (begin_iteration e t s) = onUploadComplete_calls s"
  by (simp_all add: begin_iteration_def Let_def)

lemma after_await_fields:
  "uploadQueue (after_await t out s) =
     patch_at (queueIndex t)
       (case out of Resolved response \<Rightarrow> to_processing | Rejected err \<Rightarrow> to_error err)
       (uploadQueue s)"
  "timers (after_await t out s) =
     timers s @ (case out of Resolved response \<Rightarrow> [(queueIndex t, response)] | Rejected err \<Rightarrow> [])"
  "tasks (after_await t out s) = tasks s"
  "uploadFile_calls (after_await t out s) = uploadFile_calls s"
  "onUploadComplete_calls (after_await t out s) = onUploadComplete_calls s"
  by (simp_all add: after_await_def split: outcome.splits)

lemma timeout_callback_fields:
  "uploadQueue (timeout_callback e tm s) = patch_at (fst tm) to_completed (uploadQueue s)"
  "onUploadComplete_calls (timeout_callback e tm s) =
     onUploadComplete_calls s @ (if has_onUploadComplete e then [fileId (snd tm)] else [])"
  "tasks (timeout_callback e tm s) = tasks s"
  "timers (timeout_callback e tm s) = timers s"
  "uploadFile_calls (timeout_callback e tm s) = uploadFile_calls s"
  by (simp_all add: timeout_callback_def Let_def)

lemma enqueue_fields:
  "uploadQueue (enqueue e files s) =
     uploadQueue s @ snd (forEach_file (formatFileSize e) files ([], []))"
  "tasks (enqueue e files s) = tasks s"
  "timers (enqueue e files s) = timers s"
  "uploadFile_calls (enqueue e files s) = uploadFile_calls s"
  "onUploadComplete_calls (enqueue e files s) = onUploadComplete_calls s"
  by (simp_all add: enqueue_def)

lemma new_task_fields [simp]:
  "validFiles (new_task e files s) = fst (forEach_file (formatFileSize e) files ([], []))"
  "captured_length (new_task e files s) = length (uploadQueue s)"
  "loop_i (new_task e files s) = 0"
  "queueIndex (new_task e files s) = length (uploadQueue s)"
  by (simp_all add: new_task_def queueIndex_def)

lemma handleFiles_fields:
  "uploadQueue (handleFiles e (Some fs) s) =
     uploadQueue (begin_iteration e (new_task e fs s) (enqueue e fs s))"
  "uploadFile_calls (handleFiles e (Some fs) s) =
     uploadFile_calls (begin_iteration e (new_task e fs s) (enqueue e fs s))"
  "tasks (handleFiles e (Some fs) s) = tasks s @ [new_task e fs s]"
  "timers (handleFiles e (Some fs) s) = timers s"
  "onUploadComplete_calls (handleFiles e (Some fs) s) = onUploadComplete_calls s"
  by (simp_all add: handleFiles_def Let_def begin_iteration_fields enqueue_fields)

lemma resume_fields:
  "uploadQueue (resume e j out s) =
     uploadQueue (begin_iteration e ((tasks s ! j)\<lparr>loop_i := Suc (loop_i (tasks s ! j))\<rparr>)
       (after_await (tasks s ! j) out s))"
  "uploadFile_calls (resume e j out s) =
     uploadFile_calls s @
       (if Suc (loop_i (tasks s ! j)) < length (validFiles (tasks s ! j))
        then [(validFiles (tasks s ! j) ! Suc (loop_i (tasks s ! j)), projectId e)] else [])"
  "tasks (resume e j out s) = (tasks s)[j := (tasks s ! j)\<lparr>loop_i := Suc (loop_i (tasks s ! j))\<rparr>]"
  "timers (resume e j out s) = timers (after_await (tasks s ! j) out s)"
  "onUploadComplete_calls (resume e j out s) = onUploadComplete_calls s"
  by (simp_all add: resume_def Let_def begin_iteration_fields after_await_fields)




section \<open>The worked scenarios, evaluated\<close>

lemma fileExt_more: "fileExt a_csv = ''.csv''" "fileExt b_pdf = ''.pdf''"
  by (simp_all add: fileExt_def pop_def toLowerCase_def toLowerCase_char_def a_csv_def b_pdf_def)

lemma validate_examples:
  "validateFile fmt report_csv = None"
  "validateFile fmt a_csv = None"
  "validateFile fmt b_pdf = None"
  "validateFile fmt limit_xlsx = None"
  "validateFile fmt malware_exe = Some type_message"
  "validateFile fmt bigdata_xlsx = Some (''File too large. Maximum size: '' @ fmt 52428800)"
  by (simp_all add: validateFile_cases fileExt_examples fileExt_more ALLOWED_EXTENSIONS_def)
     (simp_all add: report_csv_def a_csv_def b_pdf_def limit_xlsx_def bigdata_xlsx_def)

lemmas run_simps =
  handleFiles_def enqueue_def new_task_def begin_iteration_def after_await_def resume_def
  timeout_callback_def setUploadQueue_def queueIndex_def awaiting_def patch_at_def
  map_with_index_def push_def truthy_def validate_examples Let_def
  to_uploading_def to_processing_def to_completed_def to_error_def

lemma type_message_not_Nil: "type_message \<noteq> []" by (simp add: type_message_def)

section \<open>Files of the queue\<close>

lemma item_file_updates [simp]:
  "item_file (to_uploading item) = item_file item"
  "item_file (to_processing item) = item_file item"
  "item_file (to_completed item) = item_file item"
  "item_file (to_error err item) = item_file item"
  by (simp_all add: to_uploading_def to_processing_def to_completed_def to_error_def)

lemma map_item_file_patch_at:
  assumes "\<And>item. item_file (upd item) = item_file item"
  shows "map item_file (patch_at k upd q) = map item_file q"
  by (rule nth_equalityI) (simp_all add: length_patch_at nth_patch_at assms)

lemma map_removeFromQueue: "map f (removeFromQueue index q) = removeFromQueue index (map f q)"
  by (simp add: removeFromQueue_eq take_map drop_map)

lemma subseq_removeFromQueue: "subseq (removeFromQueue index q) q"
proof (cases "0 \<le> index \<and> index < int (length q)")
  case True
  then have k: "nat index < length q" by linarith
  have "subseq (take (nat index) q @ drop (Suc (nat index)) q)
          (take (nat index) q @ q ! nat index # drop (Suc (nat index)) q)"
    by (simp add: subseq_append' list_emb_Cons)
  then show ?thesis using True k by (simp add: removeFromQueue_eq id_take_nth_drop [symmetric])
next
  case False
  then have "removeFromQueue index q = q" by (auto simp: removeFromQueue_eq)
  then show ?thesis by simp
qed

lemma map_item_file_newQueue:
  "map item_file (snd (forEach_file fmt fs ([], []))) = fs"
  by (simp add: forEach_file_acc comp_def split: option.split) (induction fs; simp split: option.split)

lemma files_after_step:
  assumes "step e s ev = Some s'"
  shows "map item_file (uploadQueue s') =
     (case ev of
        HandleFiles files \<Rightarrow>
          map item_file (uploadQueue s) @ (case files of None \<Rightarrow> [] | Some fs \<Rightarrow> fs)
      | UploadSettles j out \<Rightarrow> map item_file (uploadQueue s)
      | TimerFires n \<Rightarrow> map item_file (uploadQueue s)
      | RemoveFromQueue index \<Rightarrow> removeFromQueue index (map item_file (uploadQueue s)))"
proof (cases ev)
  case (HandleFiles files)
  show ?thesis
  proof (cases files)
    case None
    with HandleFiles assms show ?thesis by (auto simp: handleFiles_def)
  next
    case (Some fs)
    with HandleFiles assms show ?thesis
      by (auto simp: handleFiles_fields begin_iteration_fields enqueue_fields
          map_item_file_patch_at map_item_file_newQueue)
  qed
next
  case (UploadSettles j out)
  with assms show ?thesis
    by (cases out)
       (auto simp: resume_fields begin_iteration_fields after_await_fields
          map_item_file_patch_at split: if_splits)
next
  case (TimerFires n)
  with assms show ?thesis
    by (auto simp: timeout_callback_fields map_item_file_patch_at split: if_splits)
next
  case (RemoveFromQueue index)
  with assms show ?thesis by (auto simp: map_removeFromQueue)
qed

lemma files_after_run:
  assumes "run e s evs = Some s'"
  shows "subseq (map item_file (uploadQueue s')) (map item_file (uploadQueue s) @ submitted_files evs)
       \<and> (list_all (\<lambda>ev. \<not> is_dismissal ev) evs \<longrightarrow>
            map item_file (uploadQueue s') = map item_file (uploadQueue s) @ submitted_files evs)"
  using assms
proof (induction evs arbitrary: s)
  case Nil
  then show ?case by (simp add: submitted_files_def)
next
  case (Cons ev evs)
  then obtain s1 where s1: "step e s ev = Some s1" and r: "run e s1 evs = Some s'"
    by (auto split: option.splits)
  note IH = Cons.IH [OF r]
  note st = files_after_step [OF s1]
  let ?new = "case ev of HandleFiles (Some fs) \<Rightarrow> fs | _ \<Rightarrow> []"
  have sub1: "subseq (map item_file (uploadQueue s1)) (map item_file (uploadQueue s) @ ?new)"
    using st by (auto split: event.splits option.splits simp: subseq_removeFromQueue)
  have eq1: "\<not> is_dismissal ev \<Longrightarrow>
      map item_file (uploadQueue s1) = map item_file (uploadQueue s) @ ?new"
    using st by (auto split: event.splits option.splits simp: is_dismissal_def)
  have sf: "submitted_files (ev # evs) = ?new @ submitted_files evs"
    by (simp add: submitted_files_def)
  have "subseq (map item_file (uploadQueue s1) @ submitted_files evs)
          ((map item_file (uploadQueue s) @ ?new) @ submitted_files evs)"
    using sub1 by (rule list_emb_append_mono) simp
  with IH have "subseq (map item_file (uploadQueue s'))
      (map item_file (uploadQueue s) @ submitted_files (ev # evs))"
    unfolding sf by (metis append.assoc subseq_order.trans)
  moreover have "list_all (\<lambda>ev. \<not> is_dismissal ev) (ev # evs) \<longrightarrow>
      map item_file (uploadQueue s') = map item_file (uploadQueue s) @ submitted_files (ev # evs)"
    using IH eq1 sf by simp
  ultimately show ?case by blast
qed

section \<open>The scenarios step by step\<close>

lemmas scenario_simps =
  run_simps initial_state_def example_env_def type_message_not_Nil

lemma scenario_mixed_three:
  "handleFiles example_env (Some [report_csv, malware_exe, bigdata_xlsx]) initial_state =
     \<lparr>uploadQueue =
        [\<lparr>item_file = report_csv, progress = 50, status = Uploading, error = None\<rparr>,
         \<lparr>item_file = malware_exe, progress = 0, status = Error, error = Some type_message\<rparr>,
         \<lparr>item_file = bigdata_xlsx, progress = 0, status = Error,
            error = Some ''File too large. Maximum size: 50 MB''\<rparr>],
      tasks = [\<lparr>validFiles = [report_csv], captured_length = 0, loop_i = 0\<rparr>],
      timers = [], uploadFile_calls = [(report_csv, None)], onUploadComplete_calls = []\<rparr>"
  by (simp add: run_simps initial_state_def example_env_def type_message_not_Nil)

lemma mixed_steps:
  "step example_env initial_state (HandleFiles (Some [malware_exe, report_csv])) = Some mixed_1"
  "step example_env mixed_1 (UploadSettles 0 (Rejected (ErrorInstance ''Network Error'')))
     = Some mixed_2_rejected"
  "step example_env mixed_1 (UploadSettles 0 (Resolved response_1)) = Some mixed_2"
  "step example_env mixed_2 (TimerFires 0) = Some mixed_3"
  by (simp_all add: scenario_simps mixed_1_def mixed_2_rejected_def mixed_2_def mixed_3_def
      response_1_def)

lemma two_steps:
  "step example_env initial_state (HandleFiles (Some [a_csv, b_pdf])) = Some two_1"
  "step example_env two_1 (UploadSettles 0 (Rejected OtherValue)) = Some two_2"
  "step example_env two_2 (UploadSettles 0 (Resolved response_1)) = Some two_3"
  "step example_env two_3 (TimerFires 0) = Some two_4"
  by (simp_all add: scenario_simps two_1_def two_2_def two_3_def two_4_def response_1_def)


lemma mixed_runs:
  "run example_env initial_state [HandleFiles (Some [malware_exe, report_csv])] = Some mixed_1"
  "run example_env initial_state
     [HandleFiles (Some [malware_exe, report_csv]),
      UploadSettles 0 (Rejected (ErrorInstance ''Network Error''))] = Some mixed_2_rejected"
  "run example_env initial_state
     [HandleFiles (Some [malware_exe, report_csv]), UploadSettles 0 (Resolved response_1),
      TimerFires 0] = Some mixed_3"
  by (simp_all only: run.simps mixed_steps option.case)

lemma two_runs:
  "run example_env initial_state [HandleFiles (Some [a_csv, b_pdf])] = Some two_1"
  "run example_env initial_state
     [HandleFiles (Some [a_csv, b_pdf]), UploadSettles 0 (Rejected OtherValue)] = Some two_2"
  "run example_env initial_state
     [HandleFiles (Some [a_csv, b_pdf]), UploadSettles 0 (Rejected OtherValue),
      UploadSettles 0 (Resolved response_1), TimerFires 0] = Some two_4"
  by (simp_all only: run.simps two_steps option.case)


section \<open>Progress and state of the entries\<close>



lemma updates_match [simp]:
  "progress_matches_status (to_uploading item)"
  "progress_matches_status (to_processing item)"
  "progress_matches_status (to_completed item)"
  "progress_matches_status (to_error err item)"
  by (simp_all add: progress_matches_status_def stage_progress_def to_uploading_def
      to_processing_def to_completed_def to_error_def)




section \<open>The slot a lifecycle addresses\<close>

text \<open>
  The entry built for the file at position \<open>p\<close> of a batch is appended at slot
  \<open>uploadQueue.length + p\<close>. When every file of the batch passes validation the accepted
  files are the batch itself, and the slot the loop addresses for its \<open>i\<close>-th accepted file
  holds the entry of that file.
\<close>

lemma appended_entry_slot:
  assumes "p < length fs"
  shows "item_file (uploadQueue (enqueue e fs s) ! (length (uploadQueue s) + p)) = fs ! p"
proof -
  have "length (snd (forEach_file (formatFileSize e) fs ([], []))) = length fs"
    using map_item_file_newQueue [of "formatFileSize e" fs] by (metis length_map)
  with assms have "item_file (snd (forEach_file (formatFileSize e) fs ([], [])) ! p) = fs ! p"
    using map_item_file_newQueue [of "formatFileSize e" fs] by (metis nth_map)
  then show ?thesis by (simp add: enqueue_fields)
qed

lemma accepted_batch_addresses_own_entries:
  assumes "list_all (\<lambda>f. validateFile (formatFileSize e) f = None) fs" and "i < length fs"
  shows "validFiles (new_task e fs s) = fs"
    and "item_file (uploadQueue (enqueue e fs s) ! (captured_length (new_task e fs s) + i))
           = validFiles (new_task e fs s) ! i"
proof -
  from assms(1) show v: "validFiles (new_task e fs s) = fs"
    by (simp add: validFiles_eq list_all_iff)
  from assms(2) show "item_file (uploadQueue (enqueue e fs s) ! (captured_length (new_task e fs s) + i))
           = validFiles (new_task e fs s) ! i"
    unfolding v by (simp add: appended_entry_slot)
qed

text \<open>
  Along events that dismiss nothing and submit no rejected file ahead of an accepted one,
  every suspended invocation addresses the entry of the file it is uploading.
\<close>

lemma own_entries_fits:
  assumes "own_entries F (b, vs)" and "vs \<noteq> []"
  shows "b + length vs \<le> length F"
proof -
  from assms(1) have "length (drop b (take (b + length vs) F)) = length vs"
    by (simp add: own_entries_def)
  then have "min (length F) (b + length vs) - b = length vs" by simp
  with assms(2) show ?thesis by (cases vs) (simp_all add: min_def split: if_splits)
qed

lemma own_entries_append:
  assumes "own_entries F sh"
  shows "own_entries (F @ G) sh"
proof (cases "snd sh = []")
  case True
  then show ?thesis by (simp add: own_entries_def)
next
  case False
  with assms own_entries_fits [of F "fst sh" "snd sh"]
  have "fst sh + length (snd sh) \<le> length F" by simp
  with assms show ?thesis by (simp add: own_entries_def)
qed

lemma own_entries_new: "own_entries (F @ G) (length F, G)"
  by (simp add: own_entries_def)

lemma own_entries_nth:
  assumes "own_entries F (b, vs)" and "i < length vs"
  shows "b + i < length F \<and> F ! (b + i) = vs ! i"
proof -
  from assms(2) have "vs \<noteq> []" by auto
  from own_entries_fits [OF assms(1) this] have le: "b + length vs \<le> length F" .
  from assms(1) have eq: "drop b (take (b + length vs) F) = vs" by (simp add: own_entries_def)
  have "drop b (take (b + length vs) F) ! i = F ! (b + i)"
    using assms(2) le by simp
  with eq le assms(2) show ?thesis by simp
qed

lemma addresses_own_entries_step:
  assumes "addresses_own_entries s" and "rejected_last e ev" and "step e s ev = Some s'"
  shows "addresses_own_entries s'"
proof -
  let ?F = "map item_file (uploadQueue s)"
  from assms(2) have nd: "\<not> is_dismissal ev"
    by (auto simp: rejected_last_def is_dismissal_def split: event.splits)
  show ?thesis
  proof (cases ev)
    case (HandleFiles files)
    show ?thesis
    proof (cases files)
      case None
      with HandleFiles assms show ?thesis by (auto simp: handleFiles_def)
    next
      case (Some fs)
      let ?V = "fst (forEach_file (formatFileSize e) fs ([], []))"
      from assms(2) HandleFiles Some have v: "take (length ?V) fs = ?V"
        by (simp add: rejected_last_def)
      from files_after_step [OF assms(3)] HandleFiles Some
      have F': "map item_file (uploadQueue s') = ?F @ fs" by simp
      from assms(3) HandleFiles Some have t': "tasks s' = tasks s @ [new_task e fs s]"
        by (auto simp: handleFiles_fields)
      have "own_entries (?F @ fs) (length (uploadQueue s), ?V)"
        using v by (simp add: own_entries_def)
      moreover from assms(1)
      have "list_all (\<lambda>t. own_entries (?F @ fs) (captured_length t, validFiles t)) (tasks s)"
        by (simp add: addresses_own_entries_def list_all_iff own_entries_append)
      ultimately show ?thesis
        by (simp add: addresses_own_entries_def F' t')
    qed
  next
    case (UploadSettles j out)
    with assms(3) have aw: "awaiting s j" and s': "s' = resume e j out s"
      by (auto split: if_splits)
    from files_after_step [OF assms(3)] UploadSettles
    have F': "map item_file (uploadQueue s') = ?F" by simp
    have "map (\<lambda>t. (captured_length t, validFiles t)) (tasks s')
        = map (\<lambda>t. (captured_length t, validFiles t)) (tasks s)"
      using aw by (simp add: s' resume_fields awaiting_def map_update list_update_same_conv)
    then have "list_all (own_entries ?F) (map (\<lambda>t. (captured_length t, validFiles t)) (tasks s'))
        = list_all (own_entries ?F) (map (\<lambda>t. (captured_length t, validFiles t)) (tasks s))"
      by simp
    with assms(1) show ?thesis
      by (simp add: addresses_own_entries_def F' list_all_iff)
  next
    case (TimerFires n)
    from files_after_step [OF assms(3)] TimerFires
    have F': "map item_file (uploadQueue s') = ?F" by simp
    from assms(3) TimerFires have "tasks s' = tasks s"
      by (auto simp: timeout_callback_fields split: if_splits)
    with assms(1) show ?thesis by (simp add: addresses_own_entries_def F')
  next
    case (RemoveFromQueue index)
    with nd show ?thesis by (simp add: is_dismissal_def)
  qed
qed

lemma addresses_own_entries_run:
  assumes "addresses_own_entries s" and "list_all (rejected_last e) evs" and "run e s evs = Some s'"
  shows "addresses_own_entries s'"
  using assms
proof (induction evs arbitrary: s)
  case Nil
  then show ?case by simp
next
  case (Cons ev evs)
  then show ?case
    by (auto split: option.splits dest: addresses_own_entries_step)
qed

lemma lifecycle_addresses_own_entry:
  assumes "list_all (rejected_last e) evs" and "run e initial_state evs = Some s"
    and "awaiting s j"
  shows "queueIndex (tasks s ! j) < length (uploadQueue s)
       \<and> item_file (uploadQueue s ! queueIndex (tasks s ! j))
           = validFiles (tasks s ! j) ! loop_i (tasks s ! j)"
proof -
  have "addresses_own_entries initial_state"
    by (simp add: addresses_own_entries_def initial_state_def)
  from addresses_own_entries_run [OF this assms(1,2)] assms(3)
  have "own_entries (map item_file (uploadQueue s))
          (captured_length (tasks s ! j), validFiles (tasks s ! j))"
    by (simp add: addresses_own_entries_def awaiting_def list_all_length)
  from own_entries_nth [OF this, of "loop_i (tasks s ! j)"] assms(3)
  show ?thesis by (auto simp: awaiting_def queueIndex_def)
qed

text \<open>
  What the continuation of the loop does once the awaited call has settled: the update of
  the addressed slot, then the head of the next iteration.
\<close>

lemma queue_after_settlement:
  assumes "step e s (UploadSettles j out) = Some s'"
  shows "uploadQueue s' =
     (if Suc (loop_i (tasks s ! j)) < length (validFiles (tasks s ! j))
      then patch_at (Suc (queueIndex (tasks s ! j))) to_uploading else (\<lambda>q. q))
       (patch_at (queueIndex (tasks s ! j))
          (case out of Resolved response \<Rightarrow> to_processing | Rejected err \<Rightarrow> to_error err)
          (uploadQueue s))"
  using assms
  by (auto simp: resume_fields begin_iteration_fields after_await_fields queueIndex_def
      split: if_splits)

text \<open>
  Under the same restriction a failed endpoint call is written to the entry of the file
  whose call failed.
\<close>

lemma failure_is_written_to_own_entry:
  assumes "list_all (rejected_last e) evs" and "run e initial_state evs = Some s"
    and "step e s (UploadSettles j (Rejected err)) = Some s'"
  shows "queueIndex (tasks s ! j) < length (uploadQueue s')
       \<and> uploadQueue s' ! queueIndex (tasks s ! j)
           = \<lparr>item_file = validFiles (tasks s ! j) ! loop_i (tasks s ! j), progress = 0,
              status = Error, error = Some (failure_message err)\<rparr>"
proof -
  let ?t = "tasks s ! j"
  from assms(3) have aw: "awaiting s j" by (auto split: if_splits)
  from lifecycle_addresses_own_entry [OF assms(1,2) aw]
  have k: "queueIndex ?t < length (uploadQueue s)"
    and f: "item_file (uploadQueue s ! queueIndex ?t) = validFiles ?t ! loop_i ?t"
    by simp_all
  have "to_error err (uploadQueue s ! queueIndex ?t)
      = \<lparr>item_file = validFiles ?t ! loop_i ?t, progress = 0, status = Error,
         error = Some (failure_message err)\<rparr>"
    using f by (simp add: to_error_def)
  with k show ?thesis
    by (simp add: queue_after_settlement [OF assms(3)] length_patch_at nth_patch_at)
qed

text \<open>
  Under the same restriction a successful endpoint call marks the entry of the uploaded
  file as processing and arms the timer for that slot; a timer that fires completes the
  slot it was armed for and hands the response's identifier to the callback.
\<close>

lemma success_arms_timer_for_own_entry:
  assumes "list_all (rejected_last e) evs" and "run e initial_state evs = Some s"
    and "step e s (UploadSettles j (Resolved response)) = Some s'"
  shows "timers s' = timers s @ [(queueIndex (tasks s ! j), response)]
       \<and> queueIndex (tasks s ! j) < length (uploadQueue s')
       \<and> uploadQueue s' ! queueIndex (tasks s ! j)
           = (uploadQueue s ! queueIndex (tasks s ! j))\<lparr>status := Processing, progress := 75\<rparr>
       \<and> item_file (uploadQueue s' ! queueIndex (tasks s ! j))
           = validFiles (tasks s ! j) ! loop_i (tasks s ! j)"
proof -
  let ?t = "tasks s ! j"
  from assms(3) have aw: "awaiting s j" and s': "s' = resume e j (Resolved response) s"
    by (auto split: if_splits)
  from lifecycle_addresses_own_entry [OF assms(1,2) aw]
  have k: "queueIndex ?t < length (uploadQueue s)"
    and f: "item_file (uploadQueue s ! queueIndex ?t) = validFiles ?t ! loop_i ?t"
    by simp_all
  have tm: "timers s' = timers s @ [(queueIndex ?t, response)]"
    by (simp add: s' resume_fields after_await_fields)
  have q: "uploadQueue s' ! queueIndex ?t = to_processing (uploadQueue s ! queueIndex ?t)"
    using k by (simp add: queue_after_settlement [OF assms(3)] length_patch_at nth_patch_at)
  have len: "length (uploadQueue s') = length (uploadQueue s)"
    by (simp add: queue_after_settlement [OF assms(3)] length_patch_at)
  from tm q len k f show ?thesis by (simp add: to_processing_def)
qed

lemma timer_completes_addressed_slot:
  assumes "step e s (TimerFires n) = Some s'"
  shows "uploadQueue s' = patch_at (fst (timers s ! n)) to_completed (uploadQueue s)
       \<and> onUploadComplete_calls s' =
           onUploadComplete_calls s @
             (if has_onUploadComplete e then [fileId (snd (timers s ! n))] else [])
       \<and> timers s' = take n (timers s) @ drop (Suc n) (timers s)"
  using assms by (auto simp: timeout_callback_fields split: if_splits)

section \<open>Error message and state when the lifecycles keep apart\<close>

text \<open>
  Under the same restriction on the events, every entry of every reachable state carries
  an error message exactly when it is in the error state: each update then meets an entry
  of its own lifecycle, which is not in the error state.
\<close>

lemma slot_unique:
  assumes "tasks_tile s" and "a < length (tasks s)" and "b < length (tasks s)"
    and "i < length (validFiles (tasks s ! a))" and "i' < length (validFiles (tasks s ! b))"
    and "slot (tasks s ! a) i = slot (tasks s ! b) i'"
  shows "a = b \<and> i = i'"
proof -
  have ord: "slot (tasks s ! x) (length (validFiles (tasks s ! x))) \<le> captured_length (tasks s ! y)"
    if "x < y" "y < length (tasks s)" for x y
    using assms(1) that by (simp add: tasks_tile_def)
  show ?thesis
  proof (cases a b rule: linorder_cases)
    case less
    from ord [OF less assms(3)] assms(4,6) show ?thesis by (simp add: slot_def)
  next
    case equal
    with assms(6) show ?thesis by (simp add: slot_def)
  next
    case greater
    from ord [OF greater assms(2)] assms(5,6) show ?thesis by (simp add: slot_def)
  qed
qed

lemma tile_slot_less:
  assumes "tasks_tile s" and "a < length (tasks s)" and "i < length (validFiles (tasks s ! a))"
  shows "slot (tasks s ! a) i < length (uploadQueue s)"
proof -
  from assms(1,2)
  have "slot (tasks s ! a) (length (validFiles (tasks s ! a))) \<le> length (uploadQueue s)"
    by (simp add: tasks_tile_def)
  with assms(3) show ?thesis by (simp add: slot_def)
qed

lemma todo_slot:
  assumes "todo_not_failed s" and "a < length (tasks s)" and "loop_i (tasks s ! a) \<le> i"
    and "i < length (validFiles (tasks s ! a))"
  shows "status (uploadQueue s ! slot (tasks s ! a) i) \<noteq> Error"
  using assms by (simp add: todo_not_failed_def)

lemma error_iff_state_updates:
  "status item \<noteq> Error \<Longrightarrow> error_iff_state item \<Longrightarrow> error_iff_state (to_uploading item)"
  "status item \<noteq> Error \<Longrightarrow> error_iff_state item \<Longrightarrow> error_iff_state (to_processing item)"
  "status item \<noteq> Error \<Longrightarrow> error_iff_state item \<Longrightarrow> error_iff_state (to_completed item)"
  "error_iff_state (to_error err item)"
  by (simp_all add: error_iff_state_def to_uploading_def to_processing_def to_completed_def
      to_error_def)

lemma status_updates [simp]:
  "status (to_uploading item) = Uploading"
  "status (to_processing item) = Processing"
  "status (to_completed item) = Completed"
  "status (to_error err item) = Error"
  by (simp_all add: to_uploading_def to_processing_def to_completed_def to_error_def)

lemma timer_step_apart:
  assumes K: "lifecycles_apart s" and st: "step e s (TimerFires m) = Some s'"
  shows "lifecycles_apart s'"
proof -
  let ?q = "uploadQueue s" and ?k = "fst (timers s ! m)"
  from st have m: "m < length (timers s)" by (auto split: if_splits)
  from st have q': "uploadQueue s' = patch_at ?k to_completed ?q"
    and ts': "tasks s' = tasks s"
    and tm': "timers s' = take m (timers s) @ drop (Suc m) (timers s)"
    by (auto simp: timeout_callback_fields split: if_splits)
  from K have items: "list_all error_iff_state ?q" and tile: "tasks_tile s"
    and todo: "todo_not_failed s" and armed: "timers_armed s"
    by (simp_all add: lifecycles_apart_def)
  from m have mem: "timers s ! m \<in> set (timers s)" by simp
  from armed mem have kst: "status (?q ! ?k) \<noteq> Error"
    by (auto simp: timers_armed_def)
  have len: "length (uploadQueue s') = length ?q" by (simp add: q' length_patch_at)
  have nth: "uploadQueue s' ! x = (if x = ?k then to_completed (?q ! x) else ?q ! x)"
    if "x < length ?q" for x
    using that by (simp add: q' nth_patch_at)
  have nth_st: "status (uploadQueue s' ! x) \<noteq> Error" if "status (?q ! x) \<noteq> Error" for x
  proof (cases "x < length ?q")
    case True
    with that show ?thesis by (simp add: nth)
  next
    case False
    then have "uploadQueue s' = ?q \<or> x \<noteq> ?k"
      by (auto simp: q' patch_at_list_update)
    with that False show ?thesis by (auto simp: q' patch_at_list_update)
  qed
  have 1: "list_all error_iff_state (uploadQueue s')"
    unfolding list_all_length len
  proof (intro allI impI)
    fix x assume x: "x < length ?q"
    from items x have "error_iff_state (?q ! x)" by (simp add: list_all_length)
    with kst show "error_iff_state (uploadQueue s' ! x)"
      by (auto simp: nth [OF x] error_iff_state_updates)
  qed
  have 2: "tasks_tile s'"
    using tile by (simp add: tasks_tile_def ts' len)
  have 3: "todo_not_failed s'"
    using todo nth_st by (simp add: todo_not_failed_def ts')
  have sub: "set (timers s') \<subseteq> set (timers s)"
    unfolding tm' by (auto dest: in_set_takeD in_set_dropD)
  have 4: "timers_armed s'"
    unfolding timers_armed_def
  proof (intro conjI ballI)
    fix tm assume "tm \<in> set (timers s')"
    with sub have tm: "tm \<in> set (timers s)" by blast
    with armed have st0: "status (?q ! fst tm) \<noteq> Error"
      and ex: "\<exists>a < length (tasks s). \<exists>i < loop_i (tasks s ! a). fst tm = slot (tasks s ! a) i"
      by (auto simp: timers_armed_def)
    from st0 show "status (uploadQueue s' ! fst tm) \<noteq> Error" by (rule nth_st)
    from ex show "\<exists>a < length (tasks s'). \<exists>i < loop_i (tasks s' ! a). fst tm = slot (tasks s' ! a) i"
      by (simp add: ts')
  qed
  from 1 2 3 4 show ?thesis by (simp add: lifecycles_apart_def)
qed

lemma settle_step_apart:
  assumes K: "lifecycles_apart s" and st: "step e s (UploadSettles j out) = Some s'"
  shows "lifecycles_apart s'"
proof -
  let ?q = "uploadQueue s" and ?t = "tasks s ! j"
  let ?l = "loop_i ?t" and ?n = "length (validFiles ?t)"
  let ?k = "slot ?t ?l"
  let ?upd = "case out of Resolved response \<Rightarrow> to_processing | Rejected err \<Rightarrow> to_error err"
  let ?next = "Suc ?l < ?n"
  from st have aw: "awaiting s j" and s': "s' = resume e j out s"
    by (auto split: if_splits)
  from aw have j: "j < length (tasks s)" and l: "?l < ?n" by (simp_all add: awaiting_def)
  from K have items: "list_all error_iff_state ?q" and tile: "tasks_tile s"
    and todo: "todo_not_failed s" and armed: "timers_armed s"
    by (simp_all add: lifecycles_apart_def)
  have qi: "queueIndex ?t = ?k" by (simp add: queueIndex_def slot_def)
  have ts': "tasks s' = (tasks s)[j := ?t\<lparr>loop_i := Suc ?l\<rparr>]"
    by (simp add: s' resume_fields)
  have tm': "timers s' = timers s @ (case out of Resolved response \<Rightarrow> [(?k, response)] | Rejected err \<Rightarrow> [])"
    by (cases out) (simp_all add: s' resume_fields after_await_fields qi)
  have len: "length (uploadQueue s') = length ?q"
    by (simp add: queue_after_settlement [OF st] length_patch_at)
  have nth: "uploadQueue s' ! x =
      (if x = ?k then ?upd (?q ! x)
       else if x = Suc ?k \<and> ?next then to_uploading (?q ! x) else ?q ! x)"
    if "x < length ?q" for x
    using that by (simp add: queue_after_settlement [OF st] qi length_patch_at nth_patch_at)
  from tile_slot_less [OF tile j l] have kq: "?k < length ?q" .
  from todo_slot [OF todo j _ l] have kst: "status (?q ! ?k) \<noteq> Error" by simp
  have next_st: "status (?q ! Suc ?k) \<noteq> Error" if "?next"
    using todo_slot [OF todo j _ that] by (simp add: slot_def)
  have next_q: "Suc ?k < length ?q" if "?next"
    using tile_slot_less [OF tile j that] by (simp add: slot_def)
  have shape: "captured_length (tasks s' ! a) = captured_length (tasks s ! a)
      \<and> validFiles (tasks s' ! a) = validFiles (tasks s ! a)
      \<and> loop_i (tasks s' ! a) = (if a = j then Suc ?l else loop_i (tasks s ! a))"
    if "a < length (tasks s)" for a
    using that by (simp add: ts' nth_list_update)
  have lts: "length (tasks s') = length (tasks s)" by (simp add: ts')
  have sl: "slot (tasks s' ! a) i = slot (tasks s ! a) i" if "a < length (tasks s)" for a i
    using shape [OF that] by (simp add: slot_def)
  have keep: "status (uploadQueue s' ! x) \<noteq> Error"
    if "x < length ?q" "x \<noteq> ?k" "status (?q ! x) \<noteq> Error" for x
    using nth [OF that(1)] that(2,3) by auto
  have 1: "list_all error_iff_state (uploadQueue s')"
    unfolding list_all_length len
  proof (intro allI impI)
    fix x assume x: "x < length ?q"
    from items x have ok: "error_iff_state (?q ! x)" by (simp add: list_all_length)
    show "error_iff_state (uploadQueue s' ! x)"
    proof (cases "x = ?k")
      case True
      have "uploadQueue s' ! ?k = ?upd (?q ! ?k)" using nth [OF kq] by simp
      moreover from ok True have "error_iff_state (?q ! ?k)" by simp
      ultimately show ?thesis
        using kst unfolding True by (cases out) (simp_all add: error_iff_state_updates)
    next
      case False
      show ?thesis
      proof (cases "x = Suc ?k \<and> ?next")
        case True
        with next_st have nst: "status (?q ! x) \<noteq> Error" by simp
        from nth [OF x] True False have "uploadQueue s' ! x = to_uploading (?q ! x)" by simp
        with nst ok show ?thesis by (simp add: error_iff_state_updates)
      next
        case no: False
        from nth [OF x] no False have "uploadQueue s' ! x = ?q ! x" by auto
        with ok show ?thesis by simp
      qed
    qed
  qed
  have 2: "tasks_tile s'"
    unfolding tasks_tile_def lts len
  proof (rule conjI; intro allI impI)
    fix a assume a: "a < length (tasks s)"
    from tile a have "loop_i (tasks s ! a) \<le> length (validFiles (tasks s ! a))"
      and "slot (tasks s ! a) (length (validFiles (tasks s ! a))) \<le> length ?q"
      by (simp_all add: tasks_tile_def)
    with shape [OF a] l
    show "loop_i (tasks s' ! a) \<le> length (validFiles (tasks s' ! a))
        \<and> slot (tasks s' ! a) (length (validFiles (tasks s' ! a))) \<le> length ?q"
      by (auto simp: slot_def)
  next
    fix a b assume ab: "a < b \<and> b < length (tasks s)"
    then have a: "a < length (tasks s)" and b: "b < length (tasks s)" by simp_all
    from tile ab
    have "slot (tasks s ! a) (length (validFiles (tasks s ! a))) \<le> captured_length (tasks s ! b)"
      by (simp add: tasks_tile_def)
    with shape [OF a] shape [OF b]
    show "slot (tasks s' ! a) (length (validFiles (tasks s' ! a))) \<le> captured_length (tasks s' ! b)"
      by (simp add: slot_def)
  qed
  have 3: "todo_not_failed s'"
    unfolding todo_not_failed_def lts
  proof (intro allI impI)
    fix a i
    assume a: "a < length (tasks s)"
      and i: "loop_i (tasks s' ! a) \<le> i \<and> i < length (validFiles (tasks s' ! a))"
    from i shape [OF a] have i_n: "i < length (validFiles (tasks s ! a))"
      and i_l: "loop_i (tasks s ! a) \<le> i" by (auto split: if_splits)
    from todo_slot [OF todo a i_l i_n] have old: "status (?q ! slot (tasks s ! a) i) \<noteq> Error" .
    from tile_slot_less [OF tile a i_n] have xq: "slot (tasks s ! a) i < length ?q" .
    have "slot (tasks s ! a) i \<noteq> ?k"
    proof
      assume "slot (tasks s ! a) i = ?k"
      from slot_unique [OF tile a j i_n l this] i shape [OF a] show False by simp
    qed
    from keep [OF xq this old] show "status (uploadQueue s' ! slot (tasks s' ! a) i) \<noteq> Error"
      by (simp add: sl [OF a])
  qed
  have 4: "timers_armed s'"
    unfolding timers_armed_def
  proof (intro ballI)
    fix tm assume tm: "tm \<in> set (timers s')"
    show "status (uploadQueue s' ! fst tm) \<noteq> Error
        \<and> (\<exists>a < length (tasks s'). \<exists>i < loop_i (tasks s' ! a). fst tm = slot (tasks s' ! a) i)"
    proof (cases "tm \<in> set (timers s)")
      case True
      with armed have old: "status (?q ! fst tm) \<noteq> Error"
        and "\<exists>a < length (tasks s). \<exists>i < loop_i (tasks s ! a). fst tm = slot (tasks s ! a) i"
        by (auto simp: timers_armed_def)
      then obtain a i where a: "a < length (tasks s)" and i: "i < loop_i (tasks s ! a)"
        and eq: "fst tm = slot (tasks s ! a) i" by blast
      from tile a have la: "loop_i (tasks s ! a) \<le> length (validFiles (tasks s ! a))"
        by (simp add: tasks_tile_def)
      from i la have i_n: "i < length (validFiles (tasks s ! a))" by simp
      from tile_slot_less [OF tile a i_n] have xq: "fst tm < length ?q" by (simp add: eq)
      have "fst tm \<noteq> ?k"
      proof
        assume "fst tm = ?k"
        with eq have "slot (tasks s ! a) i = ?k" by simp
        from slot_unique [OF tile a j i_n l this] i show False by simp
      qed
      from keep [OF xq this old] have "status (uploadQueue s' ! fst tm) \<noteq> Error" .
      moreover from i shape [OF a] have "i < loop_i (tasks s' ! a)" by auto
      with a eq have "\<exists>a < length (tasks s'). \<exists>i < loop_i (tasks s' ! a). fst tm = slot (tasks s' ! a) i"
        using sl [OF a] lts by metis
      ultimately show ?thesis by simp
    next
      case False
      with tm tm' obtain response where out: "out = Resolved response" and t: "tm = (?k, response)"
        by (cases out) auto
      have "status (uploadQueue s' ! ?k) \<noteq> Error"
        using kq by (simp add: nth out)
      moreover have "?l < loop_i (tasks s' ! j)" using shape [OF j] by simp
      with j have "\<exists>a < length (tasks s'). \<exists>i < loop_i (tasks s' ! a). ?k = slot (tasks s' ! a) i"
        using sl [OF j] lts by metis
      ultimately show ?thesis by (simp add: t)
    qed
  qed
  from 1 2 3 4 show ?thesis by (simp add: lifecycles_apart_def)
qed

lemma newQueue_nth:
  assumes "p < length fs"
  shows "snd (forEach_file fmt fs ([], [])) ! p =
     (case validateFile fmt (fs ! p) of
        None \<Rightarrow> \<lparr>item_file = fs ! p, progress = 0, status = Pending, error = None\<rparr>
      | Some m \<Rightarrow> \<lparr>item_file = fs ! p, progress = 0, status = Error, error = Some m\<rparr>)"
  using assms by (simp add: forEach_file_acc)

lemma length_newQueue: "length (snd (forEach_file fmt fs ([], []))) = length fs"
  by (simp add: forEach_file_acc)

lemma newQueue_error_iff_state:
  "list_all error_iff_state (snd (forEach_file fmt fs ([], [])))"
  by (auto simp: forEach_file_acc list_all_iff error_iff_state_def split: option.splits)

lemma submit_step_apart:
  assumes K: "lifecycles_apart s" and ok: "rejected_last e (HandleFiles (Some fs))"
  shows "lifecycles_apart (handleFiles e (Some fs) s)"
proof -
  let ?q = "uploadQueue s" and ?s' = "handleFiles e (Some fs) s"
  let ?V = "fst (forEach_file (formatFileSize e) fs ([], []))"
  let ?new = "snd (forEach_file (formatFileSize e) fs ([], []))"
  let ?t0 = "new_task e fs s"
  from K have items: "list_all error_iff_state ?q" and tile: "tasks_tile s"
    and todo: "todo_not_failed s" and armed: "timers_armed s"
    by (simp_all add: lifecycles_apart_def)
  from ok have pre: "take (length ?V) fs = ?V" by (simp add: rejected_last_def)
  have Vlen: "length ?V \<le> length fs" by (simp add: validFiles_eq)
  have valid: "validateFile (formatFileSize e) (fs ! i) = None" if "i < length ?V" for i
  proof -
    from that have "?V ! i \<in> set ?V" by simp
    then have "validateFile (formatFileSize e) (?V ! i) = None" by (simp add: validFiles_eq)
    moreover from that have "?V ! i = fs ! i" by (subst pre [symmetric]) simp
    ultimately show ?thesis by simp
  qed
  have new_ok: "status (?new ! i) = Pending \<and> error (?new ! i) = None" if "i < length ?V" for i
    using that Vlen valid [OF that] by (simp add: newQueue_nth)
  have q': "uploadQueue ?s' =
      (if 0 < length ?V then patch_at (length ?q) to_uploading (?q @ ?new) else ?q @ ?new)"
    by (simp add: handleFiles_fields begin_iteration_fields enqueue_fields)
  have ts': "tasks ?s' = tasks s @ [?t0]" by (simp add: handleFiles_fields)
  have tm': "timers ?s' = timers s" by (simp add: handleFiles_fields)
  have len: "length (uploadQueue ?s') = length ?q + length fs"
    by (simp add: q' length_patch_at length_newQueue)
  have old: "uploadQueue ?s' ! x = ?q ! x" if "x < length ?q" for x
    using that by (simp add: q' nth_patch_at nth_append)
  have new: "uploadQueue ?s' ! (length ?q + i) =
      (if i = 0 \<and> 0 < length ?V then to_uploading (?new ! i) else ?new ! i)"
    if "i < length fs" for i
  proof -
    from that have inr: "length ?q + i < length (?q @ ?new)" by (simp add: length_newQueue)
    show ?thesis
      unfolding q' using nth_patch_at [OF inr, of "length ?q" to_uploading]
      by (auto simp: nth_append)
  qed
  have 1: "list_all error_iff_state (uploadQueue ?s')"
    unfolding list_all_length len
  proof (intro allI impI)
    fix x assume x: "x < length ?q + length fs"
    show "error_iff_state (uploadQueue ?s' ! x)"
    proof (cases "x < length ?q")
      case True
      with items show ?thesis by (simp add: old list_all_length)
    next
      case False
      then obtain i where xi: "x = length ?q + i" and i: "i < length fs"
        using x by (metis add_diff_inverse_nat nat_add_left_cancel_less)
      from newQueue_error_iff_state [of "formatFileSize e" fs] i
      have e0: "error_iff_state (?new ! i)" by (simp add: list_all_length length_newQueue)
      show ?thesis
      proof (cases "i = 0 \<and> 0 < length ?V")
        case True
        with new_ok [of 0] have "status (?new ! i) \<noteq> Error" by simp
        moreover from new [OF i] True have "uploadQueue ?s' ! x = to_uploading (?new ! i)"
          unfolding xi by simp
        ultimately show ?thesis using e0 by (simp add: error_iff_state_updates)
      next
        case no: False
        with new [OF i] have "uploadQueue ?s' ! x = ?new ! i" unfolding xi by auto
        with e0 show ?thesis by simp
      qed
    qed
  qed
  have nth_t: "tasks ?s' ! a = (if a < length (tasks s) then tasks s ! a else ?t0)"
    if "a \<le> length (tasks s)" for a
    using that by (auto simp: ts' nth_append)
  have 2: "tasks_tile ?s'"
    unfolding tasks_tile_def
  proof (rule conjI; intro allI impI)
    fix a assume "a < length (tasks ?s')"
    then have a: "a \<le> length (tasks s)" by (simp add: ts')
    show "loop_i (tasks ?s' ! a) \<le> length (validFiles (tasks ?s' ! a))
        \<and> slot (tasks ?s' ! a) (length (validFiles (tasks ?s' ! a))) \<le> length (uploadQueue ?s')"
    proof (cases "a < length (tasks s)")
      case True
      with tile have "loop_i (tasks s ! a) \<le> length (validFiles (tasks s ! a))"
        and "slot (tasks s ! a) (length (validFiles (tasks s ! a))) \<le> length ?q"
        by (simp_all add: tasks_tile_def)
      with True show ?thesis by (simp add: nth_t [OF a] len)
    next
      case False
      with Vlen show ?thesis by (simp add: nth_t [OF a] len slot_def)
    qed
  next
    fix a b assume ab: "a < b \<and> b < length (tasks ?s')"
    then have b: "b \<le> length (tasks s)" and a: "a < length (tasks s)" by (simp_all add: ts')
    from a have a': "a \<le> length (tasks s)" by simp
    show "slot (tasks ?s' ! a) (length (validFiles (tasks ?s' ! a))) \<le> captured_length (tasks ?s' ! b)"
    proof (cases "b < length (tasks s)")
      case True
      with tile ab
      have "slot (tasks s ! a) (length (validFiles (tasks s ! a))) \<le> captured_length (tasks s ! b)"
        by (simp add: tasks_tile_def)
      with True a show ?thesis by (simp add: nth_t [OF a'] nth_t [OF b])
    next
      case False
      from tile a have "slot (tasks s ! a) (length (validFiles (tasks s ! a))) \<le> length ?q"
        by (simp add: tasks_tile_def)
      with False a show ?thesis by (simp add: nth_t [OF a'] nth_t [OF b])
    qed
  qed
  have 3: "todo_not_failed ?s'"
    unfolding todo_not_failed_def
  proof (intro allI impI)
    fix a i
    assume "a < length (tasks ?s')"
      and i: "loop_i (tasks ?s' ! a) \<le> i \<and> i < length (validFiles (tasks ?s' ! a))"
    then have a: "a \<le> length (tasks s)" by (simp add: ts')
    show "status (uploadQueue ?s' ! slot (tasks ?s' ! a) i) \<noteq> Error"
    proof (cases "a < length (tasks s)")
      case True
      with i have i_l: "loop_i (tasks s ! a) \<le> i" and i_n: "i < length (validFiles (tasks s ! a))"
        by (simp_all add: nth_t [OF a])
      from tile_slot_less [OF tile True i_n] todo_slot [OF todo True i_l i_n] True
      show ?thesis by (simp add: nth_t [OF a] old)
    next
      case False
      with i have iV: "i < length ?V" by (simp add: nth_t [OF a])
      with Vlen have ifs: "i < length fs" by simp
      from new_ok [OF iV] have "status (?new ! i) \<noteq> Error" by simp
      then have "status (uploadQueue ?s' ! (length ?q + i)) \<noteq> Error"
        using new [OF ifs] by auto
      with False show ?thesis by (simp add: nth_t [OF a] slot_def)
    qed
  qed
  have 4: "timers_armed ?s'"
    unfolding timers_armed_def tm'
  proof (intro ballI)
    fix tm assume "tm \<in> set (timers s)"
    with armed have st0: "status (?q ! fst tm) \<noteq> Error"
      and "\<exists>a < length (tasks s). \<exists>i < loop_i (tasks s ! a). fst tm = slot (tasks s ! a) i"
      by (auto simp: timers_armed_def)
    then obtain a i where a: "a < length (tasks s)" and i: "i < loop_i (tasks s ! a)"
      and eq: "fst tm = slot (tasks s ! a) i" by blast
    from tile a have "loop_i (tasks s ! a) \<le> length (validFiles (tasks s ! a))"
      by (simp add: tasks_tile_def)
    with i have i_n: "i < length (validFiles (tasks s ! a))" by simp
    from tile_slot_less [OF tile a i_n] have xq: "fst tm < length ?q" by (simp add: eq)
    from a have a': "a \<le> length (tasks s)" by simp
    have lts: "length (tasks ?s') = Suc (length (tasks s))" by (simp add: ts')
    from nth_t [OF a'] a have eqt: "tasks ?s' ! a = tasks s ! a" by simp
    have "a < length (tasks ?s') \<and> i < loop_i (tasks ?s' ! a) \<and> fst tm = slot (tasks ?s' ! a) i"
      using a i eq unfolding eqt lts by simp
    then have "\<exists>a < length (tasks ?s'). \<exists>i < loop_i (tasks ?s' ! a). fst tm = slot (tasks ?s' ! a) i"
      by blast
    with st0 xq
    show "status (uploadQueue ?s' ! fst tm) \<noteq> Error
        \<and> (\<exists>a < length (tasks ?s'). \<exists>i < loop_i (tasks ?s' ! a). fst tm = slot (tasks ?s' ! a) i)"
      by (simp add: old)
  qed
  from 1 2 3 4 show ?thesis by (simp add: lifecycles_apart_def)
qed

lemma lifecycles_apart_step:
  assumes "lifecycles_apart s" and "rejected_last e ev" and "step e s ev = Some s'"
  shows "lifecycles_apart s'"
proof (cases ev)
  case (HandleFiles files)
  show ?thesis
  proof (cases files)
    case None
    with HandleFiles assms show ?thesis by (auto simp: handleFiles_def)
  next
    case (Some fs)
    with HandleFiles assms submit_step_apart [of s e fs] show ?thesis by auto
  qed
next
  case (UploadSettles j out)
  with assms show ?thesis by (auto intro: settle_step_apart)
next
  case (TimerFires n)
  with assms show ?thesis by (auto intro: timer_step_apart)
next
  case (RemoveFromQueue index)
  with assms(2) show ?thesis by (simp add: rejected_last_def)
qed

lemma lifecycles_apart_run:
  assumes "lifecycles_apart s" and "list_all (rejected_last e) evs" and "run e s evs = Some s'"
  shows "lifecycles_apart s'"
  using assms
proof (induction evs arbitrary: s)
  case Nil
  then show ?case by simp
next
  case (Cons ev evs)
  then show ?case by (auto split: option.splits dest: lifecycles_apart_step)
qed

lemma error_iff_state_without_misaddressing:
  assumes "list_all (rejected_last e) evs" and "run e initial_state evs = Some s"
  shows "list_all (\<lambda>item. (error item \<noteq> None) = (status item = Error)) (uploadQueue s)"
proof -
  have "lifecycles_apart initial_state"
    by (simp add: lifecycles_apart_def tasks_tile_def todo_not_failed_def timers_armed_def
        initial_state_def)
  from lifecycles_apart_run [OF this assms]
  show ?thesis by (simp add: lifecycles_apart_def error_iff_state_def [abs_def])
qed

section \<open>Progress of an entry along a run\<close>














text \<open>
  The restriction on dismissals is needed. A dismissal shifts the entries behind it, and an
  update still to come then lands on another entry: below, \<open>report.csv\<close> is completed
  at progress 100, the first entry is dismissed, and the loop of the batch \<open>a.csv\<close>,
  \<open>b.pdf\<close> marks the entry of \<open>report.csv\<close> as uploading at progress 50.
\<close>

lemma progress_drops_after_dismissal:
  "map_option (map (\<lambda>item. (item_file item, status item, progress item)))
     (queue_after example_env
        [HandleFiles (Some [a_csv, b_pdf]), HandleFiles (Some [report_csv]),
         UploadSettles 1 (Resolved response_1), TimerFires 0, RemoveFromQueue 0])
     = Some [(b_pdf, Pending, 0), (report_csv, Completed, 100)]
   \<and> map_option (map (\<lambda>item. (item_file item, status item, progress item)))
     (queue_after example_env
        [HandleFiles (Some [a_csv, b_pdf]), HandleFiles (Some [report_csv]),
         UploadSettles 1 (Resolved response_1), TimerFires 0, RemoveFromQueue 0,
         UploadSettles 0 (Resolved response_1)])
     = Some [(b_pdf, Processing, 75), (report_csv, Uploading, 50)]"
proof -
  let ?t0 = "\<lparr>validFiles = [a_csv, b_pdf], captured_length = 0, loop_i = 0\<rparr>"
  let ?t1 = "\<lparr>validFiles = [report_csv], captured_length = 2, loop_i = 0\<rparr>"
  let ?a = "\<lparr>item_file = a_csv, progress = 50, status = Uploading, error = None\<rparr>"
  let ?b = "\<lparr>item_file = b_pdf, progress = 0, status = Pending, error = None\<rparr>"
  let ?s2 = "\<lparr>uploadQueue =
        [?a, ?b, \<lparr>item_file = report_csv, progress = 50, status = Uploading, error = None\<rparr>],
      tasks = [?t0, ?t1], timers = [],
      uploadFile_calls = [(a_csv, None), (report_csv, None)], onUploadComplete_calls = []\<rparr>"
  let ?s3 = "\<lparr>uploadQueue =
        [?a, ?b, \<lparr>item_file = report_csv, progress = 75, status = Processing, error = None\<rparr>],
      tasks = [?t0, ?t1\<lparr>loop_i := 1\<rparr>], timers = [(2, response_1)],
      uploadFile_calls = [(a_csv, None), (report_csv, None)], onUploadComplete_calls = []\<rparr>"
  let ?s4 = "\<lparr>uploadQueue =
        [?a, ?b, \<lparr>item_file = report_csv, progress = 100, status = Completed, error = None\<rparr>],
      tasks = [?t0, ?t1\<lparr>loop_i := 1\<rparr>], timers = [],
      uploadFile_calls = [(a_csv, None), (report_csv, None)],
      onUploadComplete_calls = [''file-1'']\<rparr>"
  let ?s5 = "\<lparr>uploadQueue =
        [?b, \<lparr>item_file = report_csv, progress = 100, status = Completed, error = None\<rparr>],
      tasks = [?t0, ?t1\<lparr>loop_i := 1\<rparr>], timers = [],
      uploadFile_calls = [(a_csv, None), (report_csv, None)],
      onUploadComplete_calls = [''file-1'']\<rparr>"
  let ?s6 = "\<lparr>uploadQueue =
        [\<lparr>item_file = b_pdf, progress = 75, status = Processing, error = None\<rparr>,
         \<lparr>item_file = report_csv, progress = 50, status = Uploading, error = None\<rparr>],
      tasks = [?t0\<lparr>loop_i := 1\<rparr>, ?t1\<lparr>loop_i := 1\<rparr>], timers = [(0, response_1)],
      uploadFile_calls = [(a_csv, None), (report_csv, None), (b_pdf, None)],
      onUploadComplete_calls = [''file-1'']\<rparr>"
  have st: "step example_env two_1 (HandleFiles (Some [report_csv])) = Some ?s2"
    "step example_env ?s2 (UploadSettles 1 (Resolved response_1)) = Some ?s3"
    "step example_env ?s3 (TimerFires 0) = Some ?s4"
    "step example_env ?s4 (RemoveFromQueue 0) = Some ?s5"
    "step example_env ?s5 (UploadSettles 0 (Resolved response_1)) = Some ?s6"
    by (simp_all add: scenario_simps two_1_def response_1_def removeFromQueue_eq)
  have r5: "run example_env initial_state
        [HandleFiles (Some [a_csv, b_pdf]), HandleFiles (Some [report_csv]),
         UploadSettles 1 (Resolved response_1), TimerFires 0, RemoveFromQueue 0] = Some ?s5"
    by (simp only: run.simps two_steps st option.case)
  have r6: "run example_env initial_state
        [HandleFiles (Some [a_csv, b_pdf]), HandleFiles (Some [report_csv]),
         UploadSettles 1 (Resolved response_1), TimerFires 0, RemoveFromQueue 0,
         UploadSettles 0 (Resolved response_1)] = Some ?s6"
    by (simp only: run.simps two_steps st option.case)
  show ?thesis
    unfolding queue_after_def r5 r6 by simp
qed

section \<open>The state a submission leaves\<close>




section \<open>The requests a batch issues\<close>

lemma take_Suc_drop: "take 1 (drop k xs) @ take m (drop (Suc k) xs) = take (Suc m) (drop k xs)"
proof (cases "k < length xs")
  case True
  then have "drop k xs = xs ! k # drop (Suc k) xs" by (simp add: Cons_nth_drop_Suc)
  then show ?thesis by simp
next
  case False
  then show ?thesis by simp
qed

lemma calls_after_settlement:
  assumes "step e s (UploadSettles j out) = Some s'"
  shows "uploadFile_calls s' =
           uploadFile_calls s @
             map (\<lambda>f. (f, projectId e))
               (take 1 (drop (Suc (loop_i (tasks s ! j))) (validFiles (tasks s ! j))))"
    and "tasks s' = (tasks s)[j := (tasks s ! j)\<lparr>loop_i := Suc (loop_i (tasks s ! j))\<rparr>]"
    and "j < length (tasks s)"
proof -
  have take1: "take (Suc 0) (drop k xs) = (if k < length xs then [xs ! k] else [])"
    for k and xs :: "File list"
    by (simp add: Cons_nth_drop_Suc [symmetric])
  from assms have aw: "awaiting s j" and s': "s' = resume e j out s"
    by (auto split: if_splits)
  show "uploadFile_calls s' =
           uploadFile_calls s @
             map (\<lambda>f. (f, projectId e))
               (take 1 (drop (Suc (loop_i (tasks s ! j))) (validFiles (tasks s ! j))))"
    by (simp add: s' resume_fields take1)
  show "tasks s' = (tasks s)[j := (tasks s ! j)\<lparr>loop_i := Suc (loop_i (tasks s ! j))\<rparr>]"
    by (simp add: s' resume_fields)
  from aw show "j < length (tasks s)" by (simp add: awaiting_def)
qed

lemma calls_after_settlements:
  assumes "run e s (map (UploadSettles j) outs) = Some s'" and "j < length (tasks s)"
  shows "uploadFile_calls s' =
           uploadFile_calls s @
             map (\<lambda>f. (f, projectId e))
               (take (length outs) (drop (Suc (loop_i (tasks s ! j))) (validFiles (tasks s ! j))))"
  using assms
proof (induction outs arbitrary: s)
  case Nil
  then show ?case by simp
next
  case (Cons out outs)
  then obtain s1 where st: "step e s (UploadSettles j out) = Some s1"
    and r: "run e s1 (map (UploadSettles j) outs) = Some s'"
    by (auto split: option.splits)
  let ?t = "tasks s ! j"
  note c = calls_after_settlement [OF st]
  from c(2) Cons.prems(2) have t1: "tasks s1 ! j = ?t\<lparr>loop_i := Suc (loop_i ?t)\<rparr>"
    and j1: "j < length (tasks s1)" by simp_all
  from Cons.IH [OF r j1]
  have "uploadFile_calls s' =
      uploadFile_calls s1 @
        map (\<lambda>f. (f, projectId e))
          (take (length outs) (drop (Suc (Suc (loop_i ?t))) (validFiles ?t)))"
    by (simp add: t1)
  then have "uploadFile_calls s' =
      uploadFile_calls s @
        map (\<lambda>f. (f, projectId e))
          (take 1 (drop (Suc (loop_i ?t)) (validFiles ?t))
           @ take (length outs) (drop (Suc (Suc (loop_i ?t))) (validFiles ?t)))"
    by (simp add: c(1))
  then show ?case by (simp only: take_Suc_drop length_Cons)
qed

lemma calls_of_a_batch:
  assumes "run e s (HandleFiles (Some fs) # map (UploadSettles (length (tasks s))) outs) = Some s'"
  shows "uploadFile_calls s' =
           uploadFile_calls s @
             map (\<lambda>f. (f, projectId e))
               (take (Suc (length outs)) (fst (forEach_file (formatFileSize e) fs ([], []))))"
proof -
  let ?V = "fst (forEach_file (formatFileSize e) fs ([], []))"
  let ?s1 = "handleFiles e (Some fs) s"
  have take1: "take (Suc 0) xs = (if 0 < length xs then [xs ! 0] else [])" for xs :: "File list"
    by (cases xs) simp_all
  from assms have r: "run e ?s1 (map (UploadSettles (length (tasks s))) outs) = Some s'"
    by simp
  have t: "tasks ?s1 = tasks s @ [new_task e fs s]" by (simp add: handleFiles_fields)
  then have j: "length (tasks s) < length (tasks ?s1)"
    and tj: "tasks ?s1 ! length (tasks s) = new_task e fs s" by simp_all
  have c1: "uploadFile_calls ?s1 = uploadFile_calls s @ map (\<lambda>f. (f, projectId e)) (take 1 ?V)"
    by (simp add: handleFiles_fields begin_iteration_fields enqueue_fields take1)
  have e1: "take 1 ?V @ take (length outs) (drop (Suc 0) ?V) = take (Suc (length outs)) ?V"
    using take_Suc_drop [of 0 ?V "length outs"] by simp
  from calls_after_settlements [OF r j]
  have "uploadFile_calls s' =
      uploadFile_calls s @
        map (\<lambda>f. (f, projectId e)) (take 1 ?V @ take (length outs) (drop (Suc 0) ?V))"
    by (simp add: tj c1)
  then show ?thesis unfolding e1 .
qed

section \<open>Submission: validation and the appended entries\<close>




section \<open>Which slot a lifecycle update rewrites\<close>

text \<open>
  Claim C2. Every lifecycle update for a file should rewrite exactly the slot of the entry
  created for that file, also in a batch mixing accepted and rejected files. The loop
  addresses slot \<open>uploadQueue.length + i\<close> with \<open>i\<close> counting accepted files only. For the
  batch \<open>malware.exe\<close>, \<open>report.csv\<close> on an empty queue the entries are appended as
  error and pending, and the update to \<open>uploading\<close> issued for \<open>report.csv\<close> rewrites
  slot 0, the entry of \<open>malware.exe\<close>, while the entry of \<open>report.csv\<close> is untouched.
\<close>

theorem mixed_batch_updates_wrong_slot:
  "uploadQueue (enqueue example_env [malware_exe, report_csv] initial_state) =
     [\<lparr>item_file = malware_exe, progress = 0, status = Error, error = Some type_message\<rparr>,
      \<lparr>item_file = report_csv, progress = 0, status = Pending, error = None\<rparr>]
   \<and> queue_after example_env [HandleFiles (Some [malware_exe, report_csv])] =
       Some [\<lparr>item_file = malware_exe, progress = 50, status = Uploading,
                error = Some type_message\<rparr>,
             \<lparr>item_file = report_csv, progress = 0, status = Pending, error = None\<rparr>]"
proof -
  have "uploadQueue (enqueue example_env [malware_exe, report_csv] initial_state) =
     [\<lparr>item_file = malware_exe, progress = 0, status = Error, error = Some type_message\<rparr>,
      \<lparr>item_file = report_csv, progress = 0, status = Pending, error = None\<rparr>]"
    by (simp add: scenario_simps)
  then show ?thesis
    unfolding queue_after_def mixed_runs by (simp add: mixed_1_def)
qed

section \<open>Progress across the lifecycle\<close>




section \<open>Error message and error state\<close>

text \<open>
  Claim C4. An entry should carry an error message exactly when its state is \<open>error\<close>.
  In the batch \<open>malware.exe\<close>, \<open>report.csv\<close> on an empty queue the entry of
  \<open>malware.exe\<close> is in state \<open>uploading\<close> and still carries its validation message.
\<close>

theorem mixed_batch_error_without_error_state:
  "map_option (map (\<lambda>item. (name (item_file item), status item, error item)))
     (queue_after example_env [HandleFiles (Some [malware_exe, report_csv])]) =
     Some [(''malware.exe'', Uploading, Some type_message), (''report.csv'', Pending, None)]"
  unfolding queue_after_def mixed_runs
  by (simp add: mixed_1_def malware_exe_def report_csv_def)

section \<open>When transfer requests are issued\<close>

text \<open>
  Claim C5, as stated: the transfer request of a later file of a batch is issued without
  waiting for an earlier file's transfer. This fails: after \<open>a.csv\<close> and \<open>b.pdf\<close> are
  submitted together only \<open>a.csv\<close> has been requested and \<open>b.pdf\<close> is still pending;
  the request for \<open>b.pdf\<close> is issued when the call for \<open>a.csv\<close> settles.
\<close>

theorem later_transfer_waits_counterexample:
  "map_option uploadFile_calls (run example_env initial_state [HandleFiles (Some [a_csv, b_pdf])])
     = Some [(a_csv, None)]
   \<and> map_option (map status) (queue_after example_env [HandleFiles (Some [a_csv, b_pdf])])
     = Some [Uploading, Pending]
   \<and> map_option uploadFile_calls
        (run example_env initial_state
          [HandleFiles (Some [a_csv, b_pdf]), UploadSettles 0 (Rejected OtherValue)])
     = Some [(a_csv, None), (b_pdf, None)]"
  unfolding queue_after_def two_runs by (simp add: two_1_def two_2_def)

text \<open>
  Claim C5, amended. Submitting a batch issues the transfer request of its first accepted
  file only. The request of each later accepted file is issued in the step in which the
  call of the file before it settles, successfully or not, and that step moves the loop
  to the next file; a timer firing or a dismissal issues no request. Hence once \<open>k\<close>
  calls of a batch have settled, the requests issued for it are those of its first
  \<open>k + 1\<close> accepted files, in order.
\<close>

theorem transfers_are_issued_one_at_a_time:
  "uploadFile_calls (handleFiles e (Some fs) s) =
     uploadFile_calls s @
       map (\<lambda>f. (f, projectId e)) (take 1 (fst (forEach_file (formatFileSize e) fs ([], []))))
   \<and> (step e s (UploadSettles j out) = Some s' \<longrightarrow>
        uploadFile_calls s' =
          uploadFile_calls s @
            map (\<lambda>f. (f, projectId e))
              (take 1 (drop (Suc (loop_i (tasks s ! j))) (validFiles (tasks s ! j))))
        \<and> tasks s' = (tasks s)[j := (tasks s ! j)\<lparr>loop_i := Suc (loop_i (tasks s ! j))\<rparr>])
   \<and> (step e s (TimerFires n) = Some s' \<longrightarrow> uploadFile_calls s' = uploadFile_calls s)
   \<and> (step e s (RemoveFromQueue index) = Some s' \<longrightarrow> uploadFile_calls s' = uploadFile_calls s)
   \<and> (run e s (HandleFiles (Some fs) # map (UploadSettles (length (tasks s))) outs) = Some s2 \<longrightarrow>
        uploadFile_calls s2 =
          uploadFile_calls s @
            map (\<lambda>f. (f, projectId e))
              (take (Suc (length outs)) (fst (forEach_file (formatFileSize e) fs ([], [])))))"
proof -
  have a: "uploadFile_calls (handleFiles e (Some fs) s) =
     uploadFile_calls s @
       map (\<lambda>f. (f, projectId e)) (take 1 (fst (forEach_file (formatFileSize e) fs ([], []))))"
    using calls_of_a_batch [of e s fs "[]" "handleFiles e (Some fs) s"] by simp
  have b: "step e s (TimerFires n) = Some s' \<longrightarrow> uploadFile_calls s' = uploadFile_calls s"
    by (auto simp: timeout_callback_fields split: if_splits)
  have c: "step e s (RemoveFromQueue index) = Some s' \<longrightarrow> uploadFile_calls s' = uploadFile_calls s"
    by auto
  from a b c calls_after_settlement(1,2) [of e s j out s'] calls_of_a_batch [of e s fs outs s2]
  show ?thesis by blast
qed

theorem transfers_are_issued_one_at_a_time_witness:
  "step example_env two_1 (UploadSettles 0 (Rejected OtherValue)) = Some two_2
   \<and> uploadFile_calls two_1 = [(a_csv, None)]
   \<and> uploadFile_calls two_2 = [(a_csv, None), (b_pdf, None)]
   \<and> step example_env two_3 (TimerFires 0) = Some two_4
   \<and> uploadFile_calls two_4 = uploadFile_calls two_3
   \<and> step example_env two_4 (RemoveFromQueue 0) = Some (setUploadQueue (removeFromQueue 0) two_4)
   \<and> uploadFile_calls (setUploadQueue (removeFromQueue 0) two_4) = uploadFile_calls two_4
   \<and> run example_env initial_state
        (HandleFiles (Some [a_csv, b_pdf])
           # map (UploadSettles (length (tasks initial_state)))
               [Rejected OtherValue, Resolved response_1]) = Some two_3
   \<and> uploadFile_calls two_3 = [(a_csv, None), (b_pdf, None)]"
proof -
  note T = transfers_are_issued_one_at_a_time
  have c1: "uploadFile_calls two_1 = [(a_csv, None)]"
    by (simp add: two_1_def)
  from T [where e = example_env and s = two_1 and j = 0 and out = "Rejected OtherValue"
            and s' = two_2] two_steps(2)
  have "uploadFile_calls two_2 =
      uploadFile_calls two_1 @
        map (\<lambda>f. (f, projectId example_env))
          (take 1 (drop (Suc (loop_i (tasks two_1 ! 0))) (validFiles (tasks two_1 ! 0))))"
    by blast
  then have c2: "uploadFile_calls two_2 = [(a_csv, None), (b_pdf, None)]"
    by (simp add: two_1_def example_env_def)
  from T [where e = example_env and s = two_3 and n = 0 and s' = two_4] two_steps(4)
  have c4: "uploadFile_calls two_4 = uploadFile_calls two_3"
    by blast
  have r: "step example_env two_4 (RemoveFromQueue 0) = Some (setUploadQueue (removeFromQueue 0) two_4)"
    by simp
  from T [where e = example_env and s = two_4 and index = 0
            and s' = "setUploadQueue (removeFromQueue 0) two_4"] r
  have c5: "uploadFile_calls (setUploadQueue (removeFromQueue 0) two_4) = uploadFile_calls two_4"
    by blast
  have len: "length (tasks initial_state) = 0"
    by (simp add: initial_state_def)
  have tr: "run example_env initial_state
        (HandleFiles (Some [a_csv, b_pdf])
           # map (UploadSettles (length (tasks initial_state)))
               [Rejected OtherValue, Resolved response_1]) = Some two_3"
    unfolding len by (simp only: list.map run.simps two_steps option.case)
  from T [where e = example_env and s = initial_state and fs = "[a_csv, b_pdf]"
            and outs = "[Rejected OtherValue, Resolved response_1]" and ?s2.0 = two_3] tr
  have "uploadFile_calls two_3 =
      uploadFile_calls initial_state @
        map (\<lambda>f. (f, projectId example_env))
          (take (Suc (length [Rejected OtherValue, Resolved response_1]))
             (fst (forEach_file (formatFileSize example_env) [a_csv, b_pdf] ([], []))))"
    by blast
  then have c3: "uploadFile_calls two_3 = [(a_csv, None), (b_pdf, None)]"
    by (simp add: scenario_simps)
  from two_steps(2) two_steps(4) c1 c2 c4 r c5 tr c3 show ?thesis
    by blast
qed

section \<open>Order of the queue\<close>

text \<open>
  Claim C6. The entries appear in the order in which their files were submitted. A
  submission appends its files at the end in candidate order; an endpoint call settling or
  a timer firing leaves the sequence of files of the queue as it is, whichever entry it
  concerns; a dismissal removes one position. Hence after any sequence of events the files
  of the queue are a subsequence of the submitted files, and are exactly the submitted
  files when nothing was dismissed.
\<close>

theorem queue_keeps_submission_order:
  "(step e s ev = Some s' \<longrightarrow>
      map item_file (uploadQueue s') =
        (case ev of
           HandleFiles files \<Rightarrow>
             map item_file (uploadQueue s) @ (case files of None \<Rightarrow> [] | Some fs \<Rightarrow> fs)
         | UploadSettles j out \<Rightarrow> map item_file (uploadQueue s)
         | TimerFires n \<Rightarrow> map item_file (uploadQueue s)
         | RemoveFromQueue index \<Rightarrow> removeFromQueue index (map item_file (uploadQueue s))))
   \<and> (run e initial_state evs = Some s2 \<longrightarrow>
        subseq (map item_file (uploadQueue s2)) (submitted_files evs)
        \<and> (list_all (\<lambda>ev. \<not> is_dismissal ev) evs \<longrightarrow>
             map item_file (uploadQueue s2) = submitted_files evs))"
  using files_after_step [of e s ev s'] files_after_run [of e initial_state evs s2]
  by (simp add: initial_state_def)

theorem queue_keeps_submission_order_witness:
  "step example_env two_1 (UploadSettles 0 (Rejected OtherValue)) = Some two_2
   \<and> map item_file (uploadQueue two_2) = map item_file (uploadQueue two_1)
   \<and> run example_env initial_state
       [HandleFiles (Some [a_csv, b_pdf]), UploadSettles 0 (Rejected OtherValue),
        UploadSettles 0 (Resolved response_1), TimerFires 0] = Some two_4
   \<and> submitted_files
       [HandleFiles (Some [a_csv, b_pdf]), UploadSettles 0 (Rejected OtherValue),
        UploadSettles 0 (Resolved response_1), TimerFires 0] = [a_csv, b_pdf]
   \<and> map item_file (uploadQueue two_4) = [a_csv, b_pdf]"
  using queue_keeps_submission_order
          [of example_env two_1 "UploadSettles 0 (Rejected OtherValue)" two_2
              "[HandleFiles (Some [a_csv, b_pdf]), UploadSettles 0 (Rejected OtherValue),
                UploadSettles 0 (Resolved response_1), TimerFires 0]" two_4]
        two_steps(2) two_runs(3)
  by (simp add: submitted_files_def is_dismissal_def two_4_def)

section \<open>Failure of the endpoint call\<close>

text \<open>
  Claim C7. A failure of the endpoint call for a file should put the entry of that file
  into the \<open>error\<close> state with the failure's message. In the batch \<open>malware.exe\<close>,
  \<open>report.csv\<close> on an empty queue, when the call for \<open>report.csv\<close> fails with
  \<open>Network Error\<close>, the message lands on the entry of \<open>malware.exe\<close> and the entry of
  \<open>report.csv\<close> stays pending.
\<close>

theorem mixed_batch_failure_lands_on_other_item:
  "queue_after example_env
     [HandleFiles (Some [malware_exe, report_csv]),
      UploadSettles 0 (Rejected (ErrorInstance ''Network Error''))] =
     Some [\<lparr>item_file = malware_exe, progress = 0, status = Error,
              error = Some ''Network Error''\<rparr>,
           \<lparr>item_file = report_csv, progress = 0, status = Pending, error = None\<rparr>]"
  unfolding queue_after_def mixed_runs by (simp add: mixed_2_rejected_def)

section \<open>Completion\<close>

text \<open>
  Claim C8. An entry reaching \<open>completed\<close> should be the entry whose file the endpoint
  returned the identifier for. In the batch \<open>malware.exe\<close>, \<open>report.csv\<close> on an empty
  queue, the only call of the endpoint is for \<open>report.csv\<close>; when the timer fires the
  callback receives that call's identifier, the entry that reaches \<open>completed\<close> with
  progress 100 is the one of \<open>malware.exe\<close>, and the entry of \<open>report.csv\<close> stays pending.
\<close>

theorem mixed_batch_completion_lands_on_other_item:
  "queue_after example_env
     [HandleFiles (Some [malware_exe, report_csv]), UploadSettles 0 (Resolved response_1),
      TimerFires 0] =
     Some [\<lparr>item_file = malware_exe, progress = 100, status = Completed,
              error = Some type_message\<rparr>,
           \<lparr>item_file = report_csv, progress = 0, status = Pending, error = None\<rparr>]
   \<and> map_option uploadFile_calls
        (run example_env initial_state
          [HandleFiles (Some [malware_exe, report_csv]), UploadSettles 0 (Resolved response_1),
           TimerFires 0]) = Some [(report_csv, None)]
   \<and> map_option onUploadComplete_calls
        (run example_env initial_state
          [HandleFiles (Some [malware_exe, report_csv]), UploadSettles 0 (Resolved response_1),
           TimerFires 0]) = Some [fileId response_1]"
  unfolding queue_after_def mixed_runs by (simp add: mixed_3_def response_1_def)

section \<open>Dismissal\<close>

text \<open>
  Claim C9. Dismissing position \<open>index\<close> removes exactly the entry at that position,
  whatever the entry is: the entries before it and after it stay, in their order. With an
  index that is not a position of the queue the queue is unchanged. The event is always
  enabled, and touches nothing but the queue.
\<close>

theorem dismiss_removes_exactly_that_position:
  "removeFromQueue index q =
     (if 0 \<le> index \<and> index < int (length q)
      then take (nat index) q @ drop (Suc (nat index)) q else q)
   \<and> step e s (RemoveFromQueue index)
       = Some (s\<lparr>uploadQueue := removeFromQueue index (uploadQueue s)\<rparr>)"
  by (simp add: removeFromQueue_eq setUploadQueue_def)

theorem dismiss_removes_exactly_that_position_witness:
  "removeFromQueue 1 three_item_queue
     = [\<lparr>item_file = a_csv, progress = 100, status = Completed, error = None\<rparr>,
        \<lparr>item_file = malware_exe, progress = 0, status = Error, error = Some type_message\<rparr>]
   \<and> removeFromQueue 3 three_item_queue = three_item_queue
   \<and> removeFromQueue (- 1) three_item_queue = three_item_queue"
  using dismiss_removes_exactly_that_position [of 1 three_item_queue]
        dismiss_removes_exactly_that_position [of 3 three_item_queue]
        dismiss_removes_exactly_that_position [of "- 1" three_item_queue]
  by (simp add: three_item_queue_def)

section \<open>Validation: the size ceiling\<close>

text \<open>
  Claim C10. The size ceiling is a strict bound: a file of an allowed type whose size is
  exactly 50 MiB (52,428,800 bytes) passes validation, and exactly the files strictly
  larger than that are rejected for their size, with the message citing the ceiling.
\<close>

theorem size_ceiling_is_strict:
  assumes "fileExt f \<in> set ALLOWED_EXTENSIONS"
  shows "MAX_FILE_SIZE = 52428800
    \<and> (validateFile fmt f = None \<longleftrightarrow> size_bytes f \<le> 52428800)
    \<and> (size_bytes f = 52428800 \<longrightarrow> validateFile fmt f = None)
    \<and> (52428800 < size_bytes f \<longrightarrow>
         validateFile fmt f = Some (''File too large. Maximum size: '' @ fmt MAX_FILE_SIZE))"
  using assms by (auto simp: validateFile_def MAX_FILE_SIZE_value)

theorem size_ceiling_is_strict_witness:
  "fileExt limit_xlsx \<in> set ALLOWED_EXTENSIONS
   \<and> size_bytes limit_xlsx = 52428800
   \<and> validateFile (formatFileSize example_env) limit_xlsx = None
   \<and> validateFile (formatFileSize example_env) bigdata_xlsx
       = Some ''File too large. Maximum size: 50 MB''"
proof -
  have a: "fileExt limit_xlsx \<in> set ALLOWED_EXTENSIONS"
    by (simp add: fileExt_examples ALLOWED_EXTENSIONS_def)
  have b: "fileExt bigdata_xlsx \<in> set ALLOWED_EXTENSIONS"
    by (simp add: fileExt_examples ALLOWED_EXTENSIONS_def)
  have c: "size_bytes limit_xlsx = 52428800" by (simp add: limit_xlsx_def)
  have d: "52428800 < size_bytes bigdata_xlsx" by (simp add: bigdata_xlsx_def)
  from size_ceiling_is_strict [OF a, of "formatFileSize example_env"]
       size_ceiling_is_strict [OF b, of "formatFileSize example_env"] a c d
  show ?thesis by (simp add: example_env_def)
qed

end
